theory Spec2Isabelle
  imports Complex_Main "HOL-Library.AList" "HOL-Library.Multiset" "HOL-Library.Sublist"
begin

section \<open>Texts and the library functions the diffing core calls\<close>

text \<open>
  A Python \<open>str\<close> is modelled as a \<open>string\<close>: the list of its code points, one \<open>char\<close>
  each, so \<open>length\<close> is Python's \<open>len\<close> and \<open>take 150\<close> is the slice \<open>[:150]\<close>.
  A \<open>char\<close> has 256 values, so the texts of this development are those over the code
  points 0 to 255 (Latin-1). The character classes below are the ones Python's \<open>re\<close> and
  \<open>str\<close> give these code points.
\<close>

definition is_digit :: "char \<Rightarrow> bool" where
  \<comment> \<open>the class \<open>\d\<close>: the decimal digits\<close>
  "is_digit c \<longleftrightarrow> (let n = (of_char c :: nat) in 48 \<le> n \<and> n \<le> 57)"

definition is_alpha :: "char \<Rightarrow> bool" where
  \<comment> \<open>a letter, \<open>str.isalpha\<close>\<close>
  "is_alpha c \<longleftrightarrow>
     (let n = (of_char c :: nat)
      in (65 \<le> n \<and> n \<le> 90) \<or> (97 \<le> n \<and> n \<le> 122)
         \<or> n = 170 \<or> n = 181 \<or> n = 186
         \<or> (192 \<le> n \<and> n \<le> 214) \<or> (216 \<le> n \<and> n \<le> 246) \<or> 248 \<le> n)"

definition is_word :: "char \<Rightarrow> bool" where
  \<comment> \<open>the class \<open>\w\<close>: letters, digits, the underscore, and the numeric characters
      (superscripts 178, 179, 185 and fractions 188 to 190)\<close>
  "is_word c \<longleftrightarrow>
     (let n = (of_char c :: nat)
      in is_alpha c \<or> is_digit c \<or> n = 95
         \<or> n = 178 \<or> n = 179 \<or> n = 185 \<or> (188 \<le> n \<and> n \<le> 190))"

definition is_space :: "char \<Rightarrow> bool" where
  \<comment> \<open>the class \<open>\s\<close> and \<open>str.isspace\<close>: tab to carriage return, the four separators
      28 to 31, the space, next line (133) and the no-break space (160)\<close>
  "is_space c \<longleftrightarrow>
     (let n = (of_char c :: nat)
      in (9 \<le> n \<and> n \<le> 13) \<or> (28 \<le> n \<and> n \<le> 32) \<or> n = 133 \<or> n = 160)"

definition lower_char :: "char \<Rightarrow> char" where
  "lower_char c =
     (let n = (of_char c :: nat)
      in if (65 \<le> n \<and> n \<le> 90) \<or> (192 \<le> n \<and> n \<le> 214) \<or> (216 \<le> n \<and> n \<le> 222)
         then char_of (n + 32) else c)"

definition upper_char :: "char \<Rightarrow> string" where
  \<comment> \<open>The capital of the sharp s (223) is \<open>SS\<close>. The capitals of 181 and 255 are the code
      points 924 and 376, which no \<open>char\<close> holds: the model leaves the two unchanged.\<close>
  "upper_char c =
     (let n = (of_char c :: nat)
      in if (97 \<le> n \<and> n \<le> 122) \<or> (224 \<le> n \<and> n \<le> 246) \<or> (248 \<le> n \<and> n \<le> 254)
         then [char_of (n - 32)]
         else if n = 223 then ''SS'' else [c])"

definition lower :: "string \<Rightarrow> string" where
  \<comment> \<open>\<open>str.lower\<close>\<close>
  "lower text = map lower_char text"

definition upper :: "string \<Rightarrow> string" where
  \<comment> \<open>\<open>str.upper\<close>\<close>
  "upper text = concat (map upper_char text)"

definition strip :: "string \<Rightarrow> string" where
  \<comment> \<open>\<open>str.strip()\<close>: leading and trailing whitespace removed\<close>
  "strip text = rev (dropWhile is_space (rev (dropWhile is_space text)))"

text \<open>
  \<open>re.findall(r'\b\w+\b', s)\<close>: the scan consumes a whole run of word characters at each
  match (\<open>\w+\<close> is greedy and \<open>\b\<close> holds only at the ends of a run), so the result is the
  list of the maximal runs of word characters, left to right. \<open>cur\<close> is the run being read.
\<close>

fun findall_words_from :: "string \<Rightarrow> string \<Rightarrow> string list" where
  "findall_words_from cur [] = (if cur = [] then [] else [cur])"
| "findall_words_from cur (c # cs) =
     (if is_word c then findall_words_from (cur @ [c]) cs
      else if cur = [] then findall_words_from [] cs
      else cur # findall_words_from [] cs)"

definition findall_words :: "string \<Rightarrow> string list" where
  "findall_words s = findall_words_from [] s"

definition match_digits_nonword :: "string \<Rightarrow> bool" where
  \<comment> \<open>\<open>re.match(r'^[\d\W]+$', text)\<close> finds a match: one character or more, every one a
      digit or a non-word character. (\<open>$\<close> also matches before a final newline, itself a
      non-word character, so the condition is the same.)\<close>
  "match_digits_nonword text \<longleftrightarrow> text \<noteq> [] \<and> list_all (\<lambda>c. is_digit c \<or> \<not> is_word c) text"

subsection \<open>\<open>difflib.SequenceMatcher(None, a, b).ratio()\<close>\<close>

text \<open>
  The standard library's matcher, with \<open>isjunk = None\<close> and \<open>autojunk = True\<close> as the
  Matcher calls it. \<open>chain_b b elt\<close> is \<open>b2j.get(elt, [])\<close>: the indices of \<open>elt\<close> in \<open>b\<close>,
  increasing, or nothing when \<open>elt\<close> is popular (\<open>b\<close> has 200 elements or more and \<open>elt\<close>
  occurs more than \<open>len(b) // 100 + 1\<close> times).
\<close>

definition chain_b :: "'a list \<Rightarrow> 'a \<Rightarrow> nat list" where
  "chain_b b elt =
     (let idxs = filter (\<lambda>j. b ! j = elt) [0..<length b]; n = length b
      in if n \<ge> 200 \<and> length idxs > n div 100 + 1 then [] else idxs)"

type_synonym match = "nat \<times> nat \<times> nat"

text \<open>
  The loop over \<open>j\<close> of \<open>find_longest_match\<close>, for one \<open>i\<close>. \<open>j2len\<close> is read only through
  \<open>j2len.get(j-1, 0)\<close> and holds positive lengths, so it is a function with 0 for an absent
  key; the key \<open>-1\<close> (at \<open>j = 0\<close>) is always absent. \<open>i-k+1\<close> is written \<open>i + 1 - k\<close>:
  \<open>k\<close> never exceeds \<open>i + 1\<close>.
\<close>

fun longest_match_row ::
  "nat \<Rightarrow> nat \<Rightarrow> nat \<Rightarrow> nat list \<Rightarrow> (nat \<Rightarrow> nat) \<Rightarrow> (nat \<Rightarrow> nat) \<times> match \<Rightarrow> (nat \<Rightarrow> nat) \<times> match" where
  "longest_match_row i blo bhi [] j2len st = st"
| "longest_match_row i blo bhi (j # js) j2len (newj2len, (besti, bestj, bestsize)) =
     (if j < blo then longest_match_row i blo bhi js j2len (newj2len, (besti, bestj, bestsize))
      else if j \<ge> bhi then (newj2len, (besti, bestj, bestsize))
      else
        (let k = (if j = 0 then 0 else j2len (j - 1)) + 1
         in longest_match_row i blo bhi js j2len
              (newj2len(j := k),
               if k > bestsize then (i + 1 - k, j + 1 - k, k) else (besti, bestj, bestsize))))"

fun longest_match_rows ::
  "'a list \<Rightarrow> 'a list \<Rightarrow> nat \<Rightarrow> nat \<Rightarrow> nat list \<Rightarrow> (nat \<Rightarrow> nat) \<times> match \<Rightarrow> match" where
  "longest_match_rows a b blo bhi [] (j2len, best) = best"
| "longest_match_rows a b blo bhi (i # is) (j2len, best) =
     longest_match_rows a b blo bhi is
       (longest_match_row i blo bhi (chain_b b (a ! i)) j2len (\<lambda>_. 0, best))"

function extend_left :: "'a list \<Rightarrow> 'a list \<Rightarrow> nat \<Rightarrow> nat \<Rightarrow> match \<Rightarrow> match" where
  "extend_left a b alo blo (besti, bestj, bestsize) =
     (if besti > alo \<and> bestj > blo \<and> a ! (besti - 1) = b ! (bestj - 1)
      then extend_left a b alo blo (besti - 1, bestj - 1, bestsize + 1)
      else (besti, bestj, bestsize))"
  by pat_completeness auto
termination
  by (relation "measure (\<lambda>(a, b, alo, blo, besti, bestj, bestsize). besti)") auto

declare extend_left.simps [simp del]

function extend_right :: "'a list \<Rightarrow> 'a list \<Rightarrow> nat \<Rightarrow> nat \<Rightarrow> match \<Rightarrow> match" where
  "extend_right a b ahi bhi (besti, bestj, bestsize) =
     (if besti + bestsize < ahi \<and> bestj + bestsize < bhi
         \<and> a ! (besti + bestsize) = b ! (bestj + bestsize)
      then extend_right a b ahi bhi (besti, bestj, bestsize + 1)
      else (besti, bestj, bestsize))"
  by pat_completeness auto
termination
  by (relation "measure (\<lambda>(a, b, ahi, bhi, besti, bestj, bestsize). ahi - (besti + bestsize))") auto

declare extend_right.simps [simp del]

definition find_longest_match :: "'a list \<Rightarrow> 'a list \<Rightarrow> nat \<Rightarrow> nat \<Rightarrow> nat \<Rightarrow> nat \<Rightarrow> match" where
  \<comment> \<open>There is no junk, so the two loops that extend the match by junk do nothing.\<close>
  "find_longest_match a b alo ahi blo bhi =
     extend_right a b ahi bhi
       (extend_left a b alo blo
          (longest_match_rows a b blo bhi [alo..<ahi] (\<lambda>_. 0, (alo, blo, 0))))"

lemma longest_match_row_bounds:
  assumes "alo \<le> i" and "i < ahi" and "\<forall>j. j2len j \<le> i - alo"
    and "\<forall>j. newj2len j \<le> i + 1 - alo" and "alo \<le> besti" and "besti + bestsize \<le> ahi"
  shows "case longest_match_row i blo bhi js j2len (newj2len, (besti, bestj, bestsize)) of
           (n', (bi, bj, bs)) \<Rightarrow> (\<forall>j. n' j \<le> i + 1 - alo) \<and> alo \<le> bi \<and> bi + bs \<le> ahi"
  using assms
proof (induction js arbitrary: newj2len besti bestj bestsize)
  case Nil
  then show ?case by simp
next
  case (Cons j js)
  define k where "k = (if j = 0 then 0 else j2len (j - 1)) + 1"
  have "j2len (j - 1) \<le> i - alo"
    using Cons.prems(3) by blast
  then have k: "k \<le> i + 1 - alo"
    using Cons.prems(1) by (auto simp: k_def)
  have step: "longest_match_row i blo bhi (j # js) j2len (newj2len, (besti, bestj, bestsize)) =
     (if j < blo then longest_match_row i blo bhi js j2len (newj2len, (besti, bestj, bestsize))
      else if j \<ge> bhi then (newj2len, (besti, bestj, bestsize))
      else longest_match_row i blo bhi js j2len
              (newj2len(j := k),
               if k > bestsize then (i + 1 - k, j + 1 - k, k) else (besti, bestj, bestsize)))"
    by (simp add: k_def Let_def)
  have upd: "\<forall>j'. (newj2len(j := k)) j' \<le> i + 1 - alo"
  proof
    fix j'
    show "(newj2len(j := k)) j' \<le> i + 1 - alo"
      using k Cons.prems(4) by (cases "j' = j") simp_all
  qed
  consider (lo) "j < blo" | (hi) "\<not> j < blo" "j \<ge> bhi"
    | (better) "\<not> j < blo" "\<not> j \<ge> bhi" "k > bestsize"
    | (keep) "\<not> j < blo" "\<not> j \<ge> bhi" "\<not> k > bestsize"
    by blast
  then show ?case
  proof cases
    case lo
    then have "longest_match_row i blo bhi (j # js) j2len (newj2len, (besti, bestj, bestsize)) =
      longest_match_row i blo bhi js j2len (newj2len, (besti, bestj, bestsize))"
      by (simp only: step if_True)
    then show ?thesis
      using Cons.IH[OF Cons.prems] by (simp only:)
  next
    case hi
    then have "longest_match_row i blo bhi (j # js) j2len (newj2len, (besti, bestj, bestsize)) =
      (newj2len, (besti, bestj, bestsize))"
      by (simp only: step if_True if_False)
    then show ?thesis
      using Cons.prems(4,5,6) by simp
  next
    case better
    then have eq: "longest_match_row i blo bhi (j # js) j2len (newj2len, (besti, bestj, bestsize)) =
      longest_match_row i blo bhi js j2len (newj2len(j := k), (i + 1 - k, j + 1 - k, k))"
      by (simp only: step if_True if_False)
    have "alo \<le> i + 1 - k" and "i + 1 - k + k \<le> ahi"
      using k Cons.prems(1,2) by auto
    from Cons.IH[OF Cons.prems(1,2,3) upd this]
    show ?thesis by (simp only: eq)
  next
    case keep
    then have eq: "longest_match_row i blo bhi (j # js) j2len (newj2len, (besti, bestj, bestsize)) =
      longest_match_row i blo bhi js j2len (newj2len(j := k), (besti, bestj, bestsize))"
      by (simp only: step if_True if_False)
    from Cons.IH[OF Cons.prems(1,2,3) upd Cons.prems(5,6)]
    show ?thesis by (simp only: eq)
  qed
qed

lemma longest_match_rows_bounds:
  assumes "alo \<le> i" and "\<forall>j. j2len j \<le> i - alo" and "alo \<le> besti" and "besti + bestsize \<le> ahi"
  shows "case longest_match_rows a b blo bhi [i..<ahi] (j2len, (besti, bestj, bestsize)) of
           (bi, bj, bs) \<Rightarrow> alo \<le> bi \<and> bi + bs \<le> ahi"
  using assms
proof (induction "ahi - i" arbitrary: i j2len besti bestj bestsize)
  case 0
  then show ?case by simp
next
  case (Suc n)
  then have lt: "i < ahi" by simp
  obtain n' bi bj bs where row:
    "longest_match_row i blo bhi (chain_b b (a ! i)) j2len (\<lambda>_. 0, (besti, bestj, bestsize)) = (n', (bi, bj, bs))"
    by (metis prod_cases3)
  have "\<forall>j. (\<lambda>_. 0::nat) j \<le> i + 1 - alo" by simp
  from longest_match_row_bounds[OF Suc.prems(1) lt Suc.prems(2) this Suc.prems(3,4),
      of blo bhi "chain_b b (a ! i)" bestj] row
  have inv: "\<forall>j. n' j \<le> Suc i - alo" "alo \<le> bi" "bi + bs \<le> ahi" by simp_all
  have "n = ahi - Suc i" using Suc.hyps(2) by simp
  from Suc.hyps(1)[OF this _ inv(1) inv(2,3), of bj] Suc.prems(1)
  show ?case using lt row by (simp add: upt_conv_Cons)
qed

lemma extend_left_bounds:
  "alo \<le> fst m \<Longrightarrow> fst m + snd (snd m) \<le> ahi \<Longrightarrow>
   alo \<le> fst (extend_left a b alo blo m)
   \<and> fst (extend_left a b alo blo m) + snd (snd (extend_left a b alo blo m)) \<le> ahi"
proof (induction a b alo blo m rule: extend_left.induct)
  case (1 a b alo blo besti bestj bestsize)
  show ?case
  proof (cases "besti > alo \<and> bestj > blo \<and> a ! (besti - 1) = b ! (bestj - 1)")
    case True
    then have eq: "extend_left a b alo blo (besti, bestj, bestsize) =
        extend_left a b alo blo (besti - 1, bestj - 1, bestsize + 1)"
      by (subst extend_left.simps) simp
    from True have "alo \<le> fst (besti - 1, bestj - 1, bestsize + 1)"
      and "fst (besti - 1, bestj - 1, bestsize + 1) + snd (snd (besti - 1, bestj - 1, bestsize + 1)) \<le> ahi"
      using "1.prems" by auto
    from "1.IH"[OF True this] show ?thesis by (simp only: eq)
  next
    case False
    then have "extend_left a b alo blo (besti, bestj, bestsize) = (besti, bestj, bestsize)"
      by (subst extend_left.simps) auto
    then show ?thesis using "1.prems" by simp
  qed
qed

lemma extend_right_bounds:
  "alo \<le> fst m \<Longrightarrow> fst m + snd (snd m) \<le> ahi \<Longrightarrow>
   alo \<le> fst (extend_right a b ahi bhi m)
   \<and> fst (extend_right a b ahi bhi m) + snd (snd (extend_right a b ahi bhi m)) \<le> ahi"
proof (induction a b ahi bhi m rule: extend_right.induct)
  case (1 a b ahi bhi besti bestj bestsize)
  show ?case
  proof (cases "besti + bestsize < ahi \<and> bestj + bestsize < bhi
         \<and> a ! (besti + bestsize) = b ! (bestj + bestsize)")
    case True
    then have eq: "extend_right a b ahi bhi (besti, bestj, bestsize) =
        extend_right a b ahi bhi (besti, bestj, bestsize + 1)"
      by (subst extend_right.simps) simp
    from True have "alo \<le> fst (besti, bestj, bestsize + 1)"
      and "fst (besti, bestj, bestsize + 1) + snd (snd (besti, bestj, bestsize + 1)) \<le> ahi"
      using "1.prems" by auto
    from "1.IH"[OF True this] show ?thesis by (simp only: eq)
  next
    case False
    then have "extend_right a b ahi bhi (besti, bestj, bestsize) = (besti, bestj, bestsize)"
      by (subst extend_right.simps) auto
    then show ?thesis using "1.prems" by simp
  qed
qed

lemma find_longest_match_bounds:
  assumes "find_longest_match a b alo ahi blo bhi = (i, j, k)" and "k \<noteq> 0"
  shows "alo \<le> i \<and> i + k \<le> ahi"
proof (cases "alo \<le> ahi")
  case True
  define m where "m = longest_match_rows a b blo bhi [alo..<ahi] (\<lambda>_. 0, (alo, blo, 0))"
  have "case m of (bi, bj, bs) \<Rightarrow> alo \<le> bi \<and> bi + bs \<le> ahi"
    unfolding m_def
    using longest_match_rows_bounds[of alo alo "\<lambda>_. 0" alo 0 ahi a b blo bhi blo] True
    by simp
  then have "alo \<le> fst m" and "fst m + snd (snd m) \<le> ahi"
    by (auto split: prod.splits)
  from extend_left_bounds[OF this, of a b blo]
  have "alo \<le> fst (extend_left a b alo blo m)"
    and "fst (extend_left a b alo blo m) + snd (snd (extend_left a b alo blo m)) \<le> ahi"
    by simp_all
  from extend_right_bounds[OF this, of a b bhi] assms(1)
  show ?thesis by (simp add: find_longest_match_def m_def)
next
  case False
  then have "find_longest_match a b alo ahi blo bhi = (alo, blo, 0)"
    by (simp add: find_longest_match_def extend_left.simps[of a b alo blo alo]
        extend_right.simps[of a b ahi bhi alo])
  with assms show ?thesis by simp
qed

text \<open>
  The loop of \<open>get_matching_blocks\<close>. The queue is a stack whose top is the head of the
  list: \<open>queue.pop()\<close> takes the range appended last, so the right-hand range, appended
  after the left-hand one, comes first.
\<close>

function get_matching_blocks_loop ::
  "'a list \<Rightarrow> 'a list \<Rightarrow> (nat \<times> nat \<times> nat \<times> nat) list \<Rightarrow> match list \<Rightarrow> match list" where
  "get_matching_blocks_loop a b [] matching_blocks = matching_blocks"
| "get_matching_blocks_loop a b ((alo, ahi, blo, bhi) # queue) matching_blocks =
     (case find_longest_match a b alo ahi blo bhi of
        (i, j, k) \<Rightarrow>
          if k \<noteq> 0 then
            get_matching_blocks_loop a b
              ((if i + k < ahi \<and> j + k < bhi then [(i + k, ahi, j + k, bhi)] else [])
                @ (if alo < i \<and> blo < j then [(alo, i, blo, j)] else []) @ queue)
              (matching_blocks @ [(i, j, k)])
          else get_matching_blocks_loop a b queue matching_blocks)"
  by pat_completeness auto
termination
proof (relation "measure (\<lambda>(a, b, queue, matching_blocks).
    sum_list (map (\<lambda>(alo, ahi, blo, bhi). 2 * (ahi - alo) + 1) queue))", goal_cases)
  case 1
  show ?case by simp
next
  case (2 a b alo ahi blo bhi queue matching_blocks i y j k)
  then have "find_longest_match a b alo ahi blo bhi = (i, j, k)" by simp
  from find_longest_match_bounds[OF this] 2(3) show ?case by auto
next
  case 3
  then show ?case by simp
qed

declare get_matching_blocks_loop.simps [simp del]

definition get_matching_blocks :: "'a list \<Rightarrow> 'a list \<Rightarrow> match list" where
  \<comment> \<open>The blocks as the loop finds them. The library then sorts them, merges adjacent
      ones and appends an empty one, none of which changes the sum of their sizes.\<close>
  "get_matching_blocks a b = get_matching_blocks_loop a b [(0, length a, 0, length b)] []"

definition ratio :: "'a list \<Rightarrow> 'a list \<Rightarrow> rat" where
  \<comment> \<open>\<open>2.0 * matches / length\<close>, as an exact rational; 1 for two empty sequences\<close>
  "ratio a b =
     (let matches = sum_list (map (\<lambda>(i, j, k). k) (get_matching_blocks a b));
          len = length a + length b
      in if len \<noteq> 0 then 2 * of_nat matches / of_nat len else 1)"

section \<open>The Normalizer\<close>

definition normalize_text :: "string \<Rightarrow> string" where
  \<comment> \<open>lower case; \<open>re.sub(r'[^\w\s]', '', text)\<close>; \<open>re.sub(r'\s+', '', text)\<close>\<close>
  "normalize_text text =
     (if text = [] then []
      else
        (let text = lower text;
             text = filter (\<lambda>c. is_word c \<or> is_space c) text;
             text = filter (\<lambda>c. \<not> is_space c) text
         in text))"

section \<open>The Extractor\<close>

type_synonym item = "string \<times> string"
  \<comment> \<open>a content block: \<open>(tag_type, text_content)\<close>\<close>

definition significant_tags :: "string list" where
  "significant_tags =
     [''p'', ''h1'', ''h2'', ''h3'', ''h4'', ''h5'', ''h6'', ''li'', ''th'', ''td'',
      ''figcaption'', ''blockquote'']"

text \<open>
  The markup parser (BeautifulSoup) is outside the repository. A parsed document is given
  by what the Extractor reads of it: for a tag name, the \<open>get_text()\<close> of each element
  that \<open>soup.find_all(tag_name)\<close> yields, in document order, once the non-content
  elements are decomposed. \<open>None\<close> is the absent document.
\<close>

type_synonym soup = "string \<Rightarrow> string list"

fun extract_tag_loop :: "string \<Rightarrow> string list \<Rightarrow> item list \<Rightarrow> item list" where
  "extract_tag_loop tag_name [] content_items = content_items"
| "extract_tag_loop tag_name (tag_text # rest) content_items =
     (let text = strip tag_text
      in if length text > 10 \<and> \<not> match_digits_nonword text
         then extract_tag_loop tag_name rest (content_items @ [(tag_name, text)])
         else extract_tag_loop tag_name rest content_items)"

fun extract_loop :: "soup \<Rightarrow> string list \<Rightarrow> item list \<Rightarrow> item list" where
  "extract_loop find_all [] content_items = content_items"
| "extract_loop find_all (tag_name # rest) content_items =
     extract_loop find_all rest (extract_tag_loop tag_name (find_all tag_name) content_items)"

definition extract_meaningful_text :: "soup option \<Rightarrow> item list" where
  "extract_meaningful_text html_content =
     (case html_content of
        None \<Rightarrow> []
      | Some find_all \<Rightarrow> extract_loop find_all significant_tags [])"

section \<open>The Matcher\<close>

datatype py_error = ZeroDivisionError | KeyError

type_synonym normalized_map = "(string \<times> item list) list"
  \<comment> \<open>a \<open>dict\<close> from normalized text to blocks, in insertion order\<close>

record change =
  old :: string
  new :: string

record results =
  added :: "string list"
  removed :: "string list"
  modified :: "change list"

definition excerpt :: "string \<Rightarrow> string \<Rightarrow> string" where
  \<comment> \<open>the conditional expression that formats every report entry\<close>
  "excerpt tag text =
     (if length text > 150
      then ''<strong>'' @ upper tag @ ''</strong>: '' @ take 150 text @ ''...''
      else ''<strong>'' @ upper tag @ ''</strong>: '' @ text)"

text \<open>
  The two loops that build the lookup maps. \<open>map_default k [x] (\<lambda>xs. xs @ [x])\<close> is
  \<open>if k not in m: m[k] = []\<close> followed by \<open>m[k].append(x)\<close>: a new key goes last.
\<close>

fun normalized_map_loop :: "item list \<Rightarrow> normalized_map \<Rightarrow> normalized_map" where
  "normalized_map_loop [] m = m"
| "normalized_map_loop ((tag, text) # items) m =
     (let ultra_normalized = normalize_text text
      in if length ultra_normalized < 30 then normalized_map_loop items m
         else normalized_map_loop items
                (map_default ultra_normalized [(tag, text)] (\<lambda>blocks. blocks @ [(tag, text)]) m))"

text \<open>
  The loop for added content, and with the two maps exchanged the loop for removed
  content: the blocks of every key of \<open>m\<close> that is no key of \<open>other\<close> and is longer than 50.
\<close>

fun unmatched_loop :: "normalized_map \<Rightarrow> normalized_map \<Rightarrow> string list \<Rightarrow> string list" where
  "unmatched_loop [] other acc = acc"
| "unmatched_loop ((normalized_text, items) # rest) other acc =
     (if normalized_text \<notin> set (map fst other)
      then
        (if length normalized_text > 50
         then unmatched_loop rest other (acc @ map (\<lambda>(tag, text). excerpt tag text) items)
         else unmatched_loop rest other acc)
      else unmatched_loop rest other acc)"

definition length_ratio :: "string \<Rightarrow> string \<Rightarrow> py_error + rat" where
  \<comment> \<open>\<open>min(len(new_norm), len(old_norm)) / max(len(new_norm), len(old_norm))\<close>\<close>
  "length_ratio new_norm old_norm =
     (if max (length new_norm) (length old_norm) = 0 then Inl ZeroDivisionError
      else Inr (of_nat (min (length new_norm) (length old_norm))
                / of_nat (max (length new_norm) (length old_norm))))"

text \<open>
  The search for the best match of \<open>new_norm\<close> among the old keys; the state is
  \<open>(best_old_norm, best_similarity)\<close>. Ratios are exact rationals: Python's doubles order
  them, and compare them with 0.75 and 0.9, in the same way for keys shorter than
  \<open>2^25\<close> characters.
\<close>

fun best_match_loop ::
  "string \<Rightarrow> string list \<Rightarrow> string option \<times> rat \<Rightarrow> py_error + (string option \<times> rat)" where
  "best_match_loop new_norm [] st = Inr st"
| "best_match_loop new_norm (old_norm # rest) (best_old_norm, best_similarity) =
     (case length_ratio new_norm old_norm of
        Inl e \<Rightarrow> Inl e
      | Inr r \<Rightarrow>
          if r < 3 / 4 then best_match_loop new_norm rest (best_old_norm, best_similarity)
          else
            (let similarity = ratio new_norm old_norm
             in if similarity > best_similarity \<and> similarity > 3 / 4
                then best_match_loop new_norm rest (Some old_norm, similarity)
                else best_match_loop new_norm rest (best_old_norm, best_similarity)))"

definition word_list :: "string \<Rightarrow> string list" where
  \<comment> \<open>\<open>set(re.findall(r'\b\w+\b', text.lower()))\<close>, each word once\<close>
  "word_list text = remdups (findall_words (lower text))"

definition significant_difference :: "string \<Rightarrow> string \<Rightarrow> bool" where
  \<comment> \<open>the extra verification on the original texts\<close>
  "significant_difference new_text old_text =
     (let new_words = word_list new_text;
          old_words = word_list old_text;
          added_words = filter (\<lambda>w. w \<notin> set old_words) new_words;
          removed_words = filter (\<lambda>w. w \<notin> set new_words) old_words;
          word_changes = length added_words + length removed_words;
          length_diff = \<bar>int (length new_text) - int (length old_text)\<bar>
      in word_changes \<ge> 5 \<and> length_diff > 50)"

fun old_blocks_loop :: "item \<Rightarrow> item list \<Rightarrow> change list \<Rightarrow> change list" where
  "old_blocks_loop new_block [] acc = acc"
| "old_blocks_loop (new_tag, new_text) ((old_tag, old_text) # rest) acc =
     (if significant_difference new_text old_text
      then old_blocks_loop (new_tag, new_text) rest
             (acc @ [\<lparr>old = excerpt old_tag old_text, new = excerpt new_tag new_text\<rparr>])
      else old_blocks_loop (new_tag, new_text) rest acc)"

definition dict_get :: "normalized_map \<Rightarrow> string \<Rightarrow> py_error + item list" where
  \<comment> \<open>\<open>m[k]\<close>\<close>
  "dict_get m k = (case map_of m k of None \<Rightarrow> Inl KeyError | Some blocks \<Rightarrow> Inr blocks)"

fun new_blocks_loop ::
  "item list \<Rightarrow> string \<Rightarrow> normalized_map \<Rightarrow> change list \<Rightarrow> py_error + change list" where
  "new_blocks_loop [] best_old_norm old_normalized_map acc = Inr acc"
| "new_blocks_loop (new_block # rest) best_old_norm old_normalized_map acc =
     (case dict_get old_normalized_map best_old_norm of
        Inl e \<Rightarrow> Inl e
      | Inr old_blocks \<Rightarrow>
          new_blocks_loop rest best_old_norm old_normalized_map
            (old_blocks_loop new_block old_blocks acc))"

definition accepted :: "string option \<times> rat \<Rightarrow> string option" where
  \<comment> \<open>\<open>best_old_norm and best_similarity > 0.75 and best_similarity < 0.9\<close>: the key,
      when it is neither \<open>None\<close> nor empty and the similarity lies between the bounds\<close>
  "accepted st =
     (case st of
        (None, best_similarity) \<Rightarrow> None
      | (Some best_old_norm, best_similarity) \<Rightarrow>
          if best_old_norm \<noteq> [] \<and> best_similarity > 3 / 4 \<and> best_similarity < 9 / 10
          then Some best_old_norm else None)"

fun modified_loop ::
  "string list \<Rightarrow> string list \<Rightarrow> normalized_map \<Rightarrow> normalized_map \<Rightarrow> change list
     \<Rightarrow> py_error + change list" where
  "modified_loop [] old_normalized_texts old_normalized_map new_normalized_map acc = Inr acc"
| "modified_loop (new_norm # rest) old_normalized_texts old_normalized_map new_normalized_map acc =
     (if new_norm \<in> set old_normalized_texts
      then modified_loop rest old_normalized_texts old_normalized_map new_normalized_map acc
      else
        (case best_match_loop new_norm old_normalized_texts (None, 0) of
           Inl e \<Rightarrow> Inl e
         | Inr st \<Rightarrow>
             (case accepted st of
                None \<Rightarrow>
                  modified_loop rest old_normalized_texts old_normalized_map new_normalized_map acc
              | Some best_old_norm \<Rightarrow>
                  (case dict_get new_normalized_map new_norm of
                     Inl e \<Rightarrow> Inl e
                   | Inr new_blocks \<Rightarrow>
                       (case new_blocks_loop new_blocks best_old_norm old_normalized_map acc of
                          Inl e \<Rightarrow> Inl e
                        | Inr acc' \<Rightarrow>
                            modified_loop rest old_normalized_texts old_normalized_map
                              new_normalized_map acc')))))"

text \<open>
  \<open>set_iter\<close> is the order in which Python iterates over \<open>set(keys)\<close>. It depends on the
  hashes of the keys, so it is a parameter: any function that satisfies \<open>set_semantics\<close>.
\<close>

definition set_semantics :: "(string list \<Rightarrow> string list) \<Rightarrow> bool" where
  "set_semantics set_iter \<longleftrightarrow> (\<forall>ks. distinct (set_iter ks) \<and> set (set_iter ks) = set ks)"

definition find_significant_changes ::
  "(string list \<Rightarrow> string list) \<Rightarrow> item list \<Rightarrow> item list \<Rightarrow> rat \<Rightarrow> py_error + results" where
  "find_significant_changes set_iter old_items new_items similarity_threshold =
     (let old_normalized_map = normalized_map_loop old_items [];
          new_normalized_map = normalized_map_loop new_items [];
          results_added = unmatched_loop new_normalized_map old_normalized_map [];
          results_removed = unmatched_loop old_normalized_map new_normalized_map [];
          old_normalized_texts = set_iter (map fst old_normalized_map);
          new_normalized_texts = set_iter (map fst new_normalized_map)
      in case modified_loop new_normalized_texts old_normalized_texts
                old_normalized_map new_normalized_map [] of
           Inl e \<Rightarrow> Inl e
         | Inr results_modified \<Rightarrow>
             Inr \<lparr>added = results_added, removed = results_removed, modified = results_modified\<rparr>)"

text \<open>
  The pairs of blocks that reach the extra verification, in the order of the loops: for each
  new key, in iteration order, that is no old key and whose best match is accepted, every
  block of the new key with every block of the matched old key. A pair is
  \<open>(new block, old block)\<close>.
\<close>

definition candidate :: "string \<Rightarrow> string \<Rightarrow> bool" where
  \<comment> \<open>the pair survives the length pre-filter: \<open>min(len) / max(len) >= 0.75\<close>\<close>
  "candidate new_norm old_norm \<longleftrightarrow>
     (3 / 4 :: rat) \<le> of_nat (min (length new_norm) (length old_norm))
                      / of_nat (max (length new_norm) (length old_norm))"

definition blocks_of :: "normalized_map \<Rightarrow> string \<Rightarrow> item list" where
  "blocks_of m k = (case map_of m k of None \<Rightarrow> [] | Some blocks \<Rightarrow> blocks)"

definition matched_blocks ::
  "string list \<Rightarrow> normalized_map \<Rightarrow> normalized_map \<Rightarrow> string \<Rightarrow> (item \<times> item) list" where
  "matched_blocks old_normalized_texts old_normalized_map new_normalized_map new_norm =
     (if new_norm \<in> set old_normalized_texts then []
      else
        (case best_match_loop new_norm old_normalized_texts (None, 0) of
           Inl e \<Rightarrow> []
         | Inr st \<Rightarrow>
             (case accepted st of
                None \<Rightarrow> []
              | Some best_old_norm \<Rightarrow>
                  List.product (blocks_of new_normalized_map new_norm)
                    (blocks_of old_normalized_map best_old_norm))))"

definition accepted_pairs ::
  "(string list \<Rightarrow> string list) \<Rightarrow> item list \<Rightarrow> item list \<Rightarrow> (item \<times> item) list" where
  "accepted_pairs set_iter old_items new_items =
     (let old_normalized_map = normalized_map_loop old_items [];
          new_normalized_map = normalized_map_loop new_items [];
          old_normalized_texts = set_iter (map fst old_normalized_map);
          new_normalized_texts = set_iter (map fst new_normalized_map)
      in concat (map (matched_blocks old_normalized_texts old_normalized_map new_normalized_map)
                   new_normalized_texts))"

definition change_of :: "item \<times> item \<Rightarrow> change" where
  "change_of p =
     (case p of ((new_tag, new_text), (old_tag, old_text)) \<Rightarrow>
        \<lparr>old = excerpt old_tag old_text, new = excerpt new_tag new_text\<rparr>)"

definition verified :: "item \<times> item \<Rightarrow> bool" where
  "verified p =
     (case p of ((new_tag, new_text), (old_tag, old_text)) \<Rightarrow>
        significant_difference new_text old_text)"

text \<open>Every block stored in a lookup map sits under its own normalized text.\<close>

definition keyed :: "normalized_map \<Rightarrow> bool" where
  "keyed m \<longleftrightarrow> (\<forall>(k, bs) \<in> set m. \<forall>(tag, text) \<in> set bs. normalize_text text = k)"

text \<open>
  The extra verification in the words of the specification: the word sets of the two
  original texts, the size of their symmetric difference, and the difference in length.
\<close>

definition spec_word_set :: "string \<Rightarrow> string set" where
  "spec_word_set text = set (findall_words (lower text))"

definition spec_word_changes :: "string \<Rightarrow> string \<Rightarrow> nat" where
  "spec_word_changes new_text old_text =
     card ((spec_word_set new_text - spec_word_set old_text)
           \<union> (spec_word_set old_text - spec_word_set new_text))"

definition spec_verified :: "item \<times> item \<Rightarrow> bool" where
  "spec_verified p =
     (case p of ((new_tag, new_text), (old_tag, old_text)) \<Rightarrow>
        spec_word_changes new_text old_text \<ge> 5
        \<and> \<bar>int (length new_text) - int (length old_text)\<bar> > 50)"

text \<open>
  The similarity ratio in the words of the specification: based on the longest common
  subsequence of the two keys, on the scale from 0 to 1.
\<close>

fun spec_lcs_length :: "'a list \<Rightarrow> 'a list \<Rightarrow> nat" where
  "spec_lcs_length [] ys = 0"
| "spec_lcs_length (x # xs) [] = 0"
| "spec_lcs_length (x # xs) (y # ys) =
     (if x = y then Suc (spec_lcs_length xs ys)
      else max (spec_lcs_length xs (y # ys)) (spec_lcs_length (x # xs) ys))"

definition spec_lcs_ratio :: "'a list \<Rightarrow> 'a list \<Rightarrow> rat" where
  "spec_lcs_ratio a b =
     (if length a + length b \<noteq> 0
      then 2 * of_nat (spec_lcs_length a b) / of_nat (length a + length b) else 1)"

subsection \<open>Concrete inputs\<close>

text \<open>Scenario 3 of the specification.\<close>

definition scenario3_old :: "item list" where
  "scenario3_old =
     [(''p'', ''The quick brown fox jumps over the lazy dog near the river bank today.'')]"

definition scenario3_new :: "item list" where
  "scenario3_new =
     [(''p'', ''The quick brown fox jumps over the lazy dog near the riverbank yesterday afternoon.'')]"

definition scenario3_result :: results where
  "scenario3_result =
     \<lparr>added = [''<strong>P</strong>: The quick brown fox jumps over the lazy dog near the riverbank yesterday afternoon.''],
      removed = [''<strong>P</strong>: The quick brown fox jumps over the lazy dog near the river bank today.''],
      modified = []\<rparr>"

text \<open>
  Two snapshots that exercise every category: a reworded list (modified), a long section
  that disappears (removed, cut at 150 characters), a paragraph that appears twice with
  different punctuation (added twice), and a short table cell that changes (ignored).
\<close>

definition example_old :: "item list" where
  "example_old =
     [(''p'', ''alpha beta gamma delta epsilon zeta eta theta''),
      (''h2'', ''Removed section: the archive copy listed every opening hour of the reading room, the lending desk and the map collection, together with the telephone numbers of all three departments.''),
      (''td'', ''Total: 42'')]"

definition example_new :: "item list" where
  "example_new =
     [(''li'', ''Alpha beta gamma delta epsilon zeta pi rho tau ............................................................''),
      (''p'', ''A brand new substantial paragraph of significant length exceeding fifty normalized characters for sure.''),
      (''blockquote'', ''a brand new substantial paragraph, of significant length, exceeding fifty normalized characters: FOR SURE!''),
      (''td'', ''Total: 43'')]"

definition example_result :: results where
  "example_result =
     \<lparr>added =
        [''<strong>P</strong>: A brand new substantial paragraph of significant length exceeding fifty normalized characters for sure.'',
         ''<strong>BLOCKQUOTE</strong>: a brand new substantial paragraph, of significant length, exceeding fifty normalized characters: FOR SURE!''],
      removed =
        [''<strong>H2</strong>: Removed section: the archive copy listed every opening hour of the reading room, the lending desk and the map collection, together with the telephone ...''],
      modified =
        [\<lparr>old = ''<strong>P</strong>: alpha beta gamma delta epsilon zeta eta theta'',
          new = ''<strong>LI</strong>: Alpha beta gamma delta epsilon zeta pi rho tau ............................................................''\<rparr>]\<rparr>"

definition example_change :: change where
  "example_change =
     \<lparr>old = ''<strong>P</strong>: alpha beta gamma delta epsilon zeta eta theta'',
      new = ''<strong>LI</strong>: Alpha beta gamma delta epsilon zeta pi rho tau ............................................................''\<rparr>"

text \<open>
  A document with four paragraphs: one made of underscores only, one made of digits and
  punctuation, an ordinary sentence, and a fragment that is too short.
\<close>

definition example_soup :: soup where
  "example_soup tag_name =
     (if tag_name = ''p''
      then [''  ___________ '', ''12345 !!! ---'', ''Hello, world of text'', ''short'']
      else [])"

text \<open>
  A list of words and a copy of it with three misspelt words and a row of dots. The old
  key is a subsequence of the new key.
\<close>

definition typo_old :: "item list" where
  "typo_old = [(''p'', ''eta delta kappa beta alpha theta iota'')]"

definition typo_new :: "item list" where
  "typo_new =
     [(''p'', ''eta delta kaoppa beta alpha thezota ilhota ............................................................'')]"

definition typo_result :: results where
  "typo_result =
     \<lparr>added = [], removed = [],
      modified =
        [\<lparr>old = ''<strong>P</strong>: eta delta kappa beta alpha theta iota'',
          new = ''<strong>P</strong>: eta delta kaoppa beta alpha thezota ilhota ............................................................''\<rparr>]\<rparr>"

section \<open>Auxiliary facts\<close>

subsection \<open>The lookup maps\<close>

lemma map_default_blocks:
  "mset (concat (map snd (map_default k [x] (\<lambda>blocks. blocks @ [x]) m))) =
   mset (concat (map snd m)) + {#x#}"
  by (induction m) auto

lemma map_default_keys:
  "set (map fst (map_default k v f m)) = insert k (set (map fst m))"
  using dom_map_default[of k v f m] by simp

lemma map_default_entry:
  "(k', bs') \<in> set (map_default k [x] (\<lambda>blocks. blocks @ [x]) m) \<Longrightarrow>
   (k', bs') \<in> set m \<or> (k' = k \<and> (bs' = [x] \<or> (\<exists>bs. (k, bs) \<in> set m \<and> bs' = bs @ [x])))"
  by (induction m) (auto split: if_splits)

lemma keyed_map_default:
  "keyed m \<Longrightarrow> keyed (map_default (normalize_text text) [(tag, text)] (\<lambda>blocks. blocks @ [(tag, text)]) m)"
  unfolding keyed_def by (fastforce dest!: map_default_entry)

lemma normalized_map_loop_keyed:
  "keyed m \<Longrightarrow> keyed (normalized_map_loop items m)"
  by (induction items m rule: normalized_map_loop.induct)
     (simp_all add: Let_def keyed_map_default)

lemma normalized_map_loop_keys:
  "set (map fst (normalized_map_loop items m)) =
   set (map fst m) \<union> set (map (\<lambda>(tag, text). normalize_text text)
                         (filter (\<lambda>(tag, text). 30 \<le> length (normalize_text text)) items))"
proof (induction items arbitrary: m)
  case Nil
  show ?case by simp
next
  case (Cons b items)
  obtain tg tx where b: "b = (tg, tx)" by (cases b)
  show ?case
  proof (cases "length (normalize_text tx) < 30")
    case True
    then have "normalized_map_loop (b # items) m = normalized_map_loop items m"
      by (simp add: b)
    with True Cons.IH[of m] show ?thesis by (simp add: b)
  next
    case False
    then have "normalized_map_loop (b # items) m =
        normalized_map_loop items
          (map_default (normalize_text tx) [(tg, tx)] (\<lambda>blocks. blocks @ [(tg, tx)]) m)"
      by (simp add: b Let_def)
    then have "set (map fst (normalized_map_loop (b # items) m)) =
       insert (normalize_text tx) (set (map fst m)) \<union>
         set (map (\<lambda>(tag, text). normalize_text text)
                         (filter (\<lambda>(tag, text). 30 \<le> length (normalize_text text)) items))"
      by (simp only: Cons.IH map_default_keys)
    with False show ?thesis by (simp add: b)
  qed
qed

lemma normalized_map_loop_blocks:
  "mset (concat (map snd (normalized_map_loop items m))) =
   mset (concat (map snd m)) + mset (filter (\<lambda>(tag, text). 30 \<le> length (normalize_text text)) items)"
  by (induction items m rule: normalized_map_loop.induct)
     (simp_all add: Let_def map_default_blocks)

lemma keyed_Nil: "keyed []"
  by (simp add: keyed_def)

lemma normalized_map_block:
  assumes "(k, bs) \<in> set (normalized_map_loop items [])" and "(tag, text) \<in> set bs"
  shows "(tag, text) \<in> set items \<and> normalize_text text = k \<and> 30 \<le> length k"
proof -
  have key: "normalize_text text = k"
    using normalized_map_loop_keyed[OF keyed_Nil, of items] assms
    unfolding keyed_def by fastforce
  have "(tag, text) \<in> set (concat (map snd (normalized_map_loop items [])))"
    using assms by force
  then have "(tag, text) \<in># mset (concat (map snd (normalized_map_loop items [])))"
    by simp
  then have "(tag, text) \<in> set (filter (\<lambda>(tag, text). 30 \<le> length (normalize_text text)) items)"
    unfolding normalized_map_loop_blocks by simp
  with key show ?thesis by auto
qed

lemma normalized_map_key_length:
  "k \<in> set (map fst (normalized_map_loop items [])) \<Longrightarrow> 30 \<le> length k"
  unfolding normalized_map_loop_keys by (auto simp: case_prod_beta)

subsection \<open>Added and removed content\<close>

lemma unmatched_loop_eq:
  "unmatched_loop m other acc =
   acc @ concat (map (\<lambda>(k, items).
                    if k \<notin> set (map fst other) \<and> length k > 50
                    then map (\<lambda>(tag, text). excerpt tag text) items else []) m)"
  by (induction m other acc rule: unmatched_loop.induct) auto

lemma unmatched_keyed:
  "keyed m \<Longrightarrow>
   concat (map (\<lambda>(k, items).
                    if k \<notin> set (map fst other) \<and> length k > 50
                    then map (\<lambda>(tag, text). excerpt tag text) items else []) m) =
   map (\<lambda>(tag, text). excerpt tag text)
     (filter (\<lambda>(tag, text). normalize_text text \<notin> set (map fst other) \<and> length (normalize_text text) > 50)
        (concat (map snd m)))"
proof (induction m)
  case Nil
  then show ?case by simp
next
  case (Cons p m)
  obtain k bs where p: "p = (k, bs)" by (cases p)
  from Cons.prems have km: "keyed m" and kb: "\<forall>(tag, text) \<in> set bs. normalize_text text = k"
    by (auto simp: keyed_def p)
  let ?P = "\<lambda>(tag, text). normalize_text text \<notin> set (map fst other) \<and> length (normalize_text text) > 50"
  have fb: "filter ?P bs = (if k \<notin> set (map fst other) \<and> length k > 50 then bs else [])"
  proof (cases "k \<notin> set (map fst other) \<and> length k > 50")
    case True
    have e: "filter ?P bs = bs"
      by (rule filter_True) (use kb True in fastforce)
    show ?thesis by (simp only: e if_P[OF True])
  next
    case False
    have e: "filter ?P bs = []"
      by (rule filter_False) (use kb False in fastforce)
    show ?thesis by (simp only: e if_not_P[OF False])
  qed
  have "concat (map (\<lambda>(k, items).
                    if k \<notin> set (map fst other) \<and> length k > 50
                    then map (\<lambda>(tag, text). excerpt tag text) items else []) (p # m)) =
        (if k \<notin> set (map fst other) \<and> length k > 50
         then map (\<lambda>(tag, text). excerpt tag text) bs else [])
        @ map (\<lambda>(tag, text). excerpt tag text) (filter ?P (concat (map snd m)))"
    by (simp only: p list.map concat.simps prod.case Cons.IH[OF km])
  also have "\<dots> = map (\<lambda>(tag, text). excerpt tag text) (filter ?P bs)
        @ map (\<lambda>(tag, text). excerpt tag text) (filter ?P (concat (map snd m)))"
    by (simp only: fb if_distrib[of "map (\<lambda>(tag, text). excerpt tag text)"] list.map)
  also have "\<dots> = map (\<lambda>(tag, text). excerpt tag text) (filter ?P (concat (map snd (p # m))))"
    by (simp only: p list.map concat.simps snd_conv filter_append map_append)
  finally show ?case .
qed

lemma long_key_absent:
  assumes "50 < length k"
  shows "k \<notin> set (map fst (normalized_map_loop others [])) \<longleftrightarrow>
         k \<notin> set (map (\<lambda>(tag, text). normalize_text text) others)"
proof -
  have "k \<in> set (map fst (normalized_map_loop others [])) \<longleftrightarrow>
        (\<exists>b \<in> set others. 30 \<le> length (normalize_text (snd b)) \<and> k = normalize_text (snd b))"
    unfolding normalized_map_loop_keys by (auto simp: case_prod_beta)
  also have "\<dots> \<longleftrightarrow> (\<exists>b \<in> set others. k = normalize_text (snd b))"
  proof
    assume "\<exists>b \<in> set others. 30 \<le> length (normalize_text (snd b)) \<and> k = normalize_text (snd b)"
    then show "\<exists>b \<in> set others. k = normalize_text (snd b)" by blast
  next
    assume "\<exists>b \<in> set others. k = normalize_text (snd b)"
    then obtain b where "b \<in> set others" and "k = normalize_text (snd b)" by blast
    moreover from this assms have "30 \<le> length (normalize_text (snd b))" by simp
    ultimately show "\<exists>b \<in> set others. 30 \<le> length (normalize_text (snd b)) \<and> k = normalize_text (snd b)"
      by blast
  qed
  also have "\<dots> \<longleftrightarrow> k \<in> set (map (\<lambda>(tag, text). normalize_text text) others)"
    by (auto simp: case_prod_beta)
  finally show ?thesis by simp
qed

lemma unmatched_mset:
  "mset (unmatched_loop (normalized_map_loop items []) (normalized_map_loop others []) []) =
   mset (map (\<lambda>(tag, text). excerpt tag text)
     (filter (\<lambda>(tag, text). 50 < length (normalize_text text)
                \<and> normalize_text text \<notin> set (map (\<lambda>(tag, text). normalize_text text) others)) items))"
proof -
  let ?m = "normalized_map_loop items []" and ?o = "normalized_map_loop others []"
  let ?P = "\<lambda>(tag, text). normalize_text text \<notin> set (map fst ?o) \<and> length (normalize_text text) > 50"
  let ?Q = "\<lambda>(tag, text). 50 < length (normalize_text text)
                \<and> normalize_text text \<notin> set (map (\<lambda>(tag, text). normalize_text text) others)"
  let ?R = "\<lambda>(tag, text). 30 \<le> length (normalize_text text)"
  have blocks: "mset (concat (map snd ?m)) = filter_mset ?R (mset items)"
    by (simp add: normalized_map_loop_blocks)
  have same: "(?R x \<and> ?P x) = ?Q x" for x
  proof (cases x)
    case (Pair tag tx)
    show ?thesis
    proof (cases "50 < length (normalize_text tx)")
      case True
      then show ?thesis
        unfolding Pair using long_key_absent[OF True, of others] by simp
    next
      case False
      then show ?thesis unfolding Pair by simp
    qed
  qed
  have "mset (filter ?P (concat (map snd ?m))) = filter_mset ?P (filter_mset ?R (mset items))"
    by (simp only: mset_filter blocks)
  also have "\<dots> = filter_mset (\<lambda>x. ?R x \<and> ?P x) (mset items)"
    by (simp only: filter_filter_mset)
  also have "\<dots> = filter_mset ?Q (mset items)"
    by (simp only: same)
  also have "\<dots> = mset (filter ?Q items)"
    by (simp only: mset_filter)
  finally have "mset (filter ?P (concat (map snd ?m))) = mset (filter ?Q items)" .
  then have "image_mset (\<lambda>(tag, text). excerpt tag text) (mset (filter ?P (concat (map snd ?m)))) =
     image_mset (\<lambda>(tag, text). excerpt tag text) (mset (filter ?Q items))"
    by (simp only:)
  then have "mset (map (\<lambda>(tag, text). excerpt tag text) (filter ?P (concat (map snd ?m)))) =
     mset (map (\<lambda>(tag, text). excerpt tag text) (filter ?Q items))"
    by (simp only: mset_map)
  then show ?thesis
    by (simp only: unmatched_loop_eq append_Nil
        unmatched_keyed[OF normalized_map_loop_keyed[OF keyed_Nil]])
qed


lemma length_ratio_Inr:
  "new_norm \<noteq> [] \<Longrightarrow>
   length_ratio new_norm old_norm =
     Inr (of_nat (min (length new_norm) (length old_norm))
          / of_nat (max (length new_norm) (length old_norm)))"
  by (simp add: length_ratio_def)

lemma best_match_loop_total:
  "new_norm \<noteq> [] \<Longrightarrow> \<exists>st'. best_match_loop new_norm olds st = Inr st'"
proof (induction olds arbitrary: st)
  case Nil
  show ?case by simp
next
  case (Cons k olds)
  obtain b s where st: "st = (b, s)" by (cases st)
  show ?case
    using Cons.IH[OF Cons.prems] Cons.prems
    by (simp add: st length_ratio_Inr Let_def)
qed

lemma best_match_loop_Cons:
  "new_norm \<noteq> [] \<Longrightarrow>
   best_match_loop new_norm (k # olds) (b, s) =
     (if \<not> candidate new_norm k then best_match_loop new_norm olds (b, s)
      else if ratio new_norm k > s \<and> ratio new_norm k > 3 / 4
           then best_match_loop new_norm olds (Some k, ratio new_norm k)
           else best_match_loop new_norm olds (b, s))"
  by (simp add: length_ratio_Inr candidate_def Let_def not_le)

lemma best_match_loop_inv:
  assumes "best_match_loop new_norm olds (b, s) = Inr (b', s')" and "new_norm \<noteq> []"
  shows "s \<le> s'
     \<and> (b' = b \<and> s' = s
        \<or> (\<exists>k \<in> set olds. b' = Some k \<and> candidate new_norm k \<and> s' = ratio new_norm k \<and> 3 / 4 < s'))
     \<and> (\<forall>k \<in> set olds. candidate new_norm k \<longrightarrow> ratio new_norm k \<le> s' \<or> ratio new_norm k \<le> 3 / 4)"
  using assms(1)
proof (induction olds arbitrary: b s)
  case Nil
  then show ?case by simp
next
  case (Cons k olds)
  note step = best_match_loop_Cons[OF assms(2), of k olds b s]
  show ?case
  proof (cases "candidate new_norm k")
    case False
    then have "best_match_loop new_norm (k # olds) (b, s) = best_match_loop new_norm olds (b, s)"
      by (simp add: step del: best_match_loop.simps)
    with Cons.prems have "best_match_loop new_norm olds (b, s) = Inr (b', s')" by simp
    from Cons.IH[OF this] False show ?thesis by auto
  next
    case True
    note cand = this
    show ?thesis
    proof (cases "ratio new_norm k > s \<and> ratio new_norm k > 3 / 4")
      case True
      have "best_match_loop new_norm (k # olds) (b, s) =
          best_match_loop new_norm olds (Some k, ratio new_norm k)"
        by (simp only: step cand not_True_eq_False if_False if_P[OF True])
      with Cons.prems have "best_match_loop new_norm olds (Some k, ratio new_norm k) = Inr (b', s')"
        by simp
      from Cons.IH[OF this] True cand show ?thesis by auto
    next
      case False
      have "best_match_loop new_norm (k # olds) (b, s) =
          best_match_loop new_norm olds (b, s)"
        by (simp only: step cand not_True_eq_False if_False if_not_P[OF False])
      with Cons.prems have "best_match_loop new_norm olds (b, s) = Inr (b', s')" by simp
      from Cons.IH[OF this] False cand show ?thesis by auto
    qed
  qed
qed

lemma accepted_best:
  assumes "best_match_loop new_norm olds (None, 0) = Inr st" and "accepted st = Some k"
    and "new_norm \<noteq> []"
  shows "k \<in> set olds \<and> candidate new_norm k
     \<and> 3 / 4 < ratio new_norm k \<and> ratio new_norm k < 9 / 10
     \<and> (\<forall>k' \<in> set olds. candidate new_norm k' \<longrightarrow> ratio new_norm k' \<le> ratio new_norm k)"
proof -
  obtain b' s' where st: "st = (b', s')" by (cases st)
  from assms(2) have b': "b' = Some k" and s': "3 / 4 < s'" "s' < 9 / 10"
    by (auto simp: accepted_def st split: option.splits if_splits)
  from best_match_loop_inv[OF assms(1)[unfolded st] assms(3)] b'
  have k: "k \<in> set olds" "candidate new_norm k" "s' = ratio new_norm k"
    and mx: "\<forall>k' \<in> set olds. candidate new_norm k' \<longrightarrow> ratio new_norm k' \<le> s' \<or> ratio new_norm k' \<le> 3 / 4"
    by auto
  from mx s' have "\<forall>k' \<in> set olds. candidate new_norm k' \<longrightarrow> ratio new_norm k' \<le> s'"
    by (meson less_imp_le order_trans)
  with k s' show ?thesis by simp
qed

lemma old_blocks_loop_eq:
  "old_blocks_loop nb obs acc = acc @ map change_of (filter verified (map (Pair nb) obs))"
  by (induction nb obs acc rule: old_blocks_loop.induct)
     (simp_all add: change_of_def verified_def)

lemma new_blocks_loop_eq:
  "map_of old_map k = Some obs \<Longrightarrow>
   new_blocks_loop nbs k old_map acc =
     Inr (acc @ map change_of (filter verified (List.product nbs obs)))"
  by (induction nbs arbitrary: acc) (simp_all add: dict_get_def old_blocks_loop_eq)

lemma map_of_key:
  "k \<in> set (map fst m) \<Longrightarrow> \<exists>bs. map_of m k = Some bs"
  by (cases "map_of m k") (auto simp: map_of_eq_None_iff)


lemma modified_loop_Cons:
  assumes "n \<noteq> []" and "n \<in> set (map fst new_map)" and "set olds \<subseteq> set (map fst old_map)"
  shows "modified_loop (n # news) olds old_map new_map acc =
     modified_loop news olds old_map new_map
       (acc @ map change_of (filter verified (matched_blocks olds old_map new_map n)))"
proof (cases "n \<in> set olds")
  case True
  have "matched_blocks olds old_map new_map n = []"
    by (simp only: matched_blocks_def if_P[OF True])
  then show ?thesis
    by (simp only: modified_loop.simps(2) if_P[OF True] filter.simps list.map append_Nil2)
next
  case False
  from best_match_loop_total[OF assms(1)]
  obtain st where st: "best_match_loop n olds (None, 0) = Inr st" by (rule exE)
  show ?thesis
  proof (cases "accepted st")
    case None
    have "matched_blocks olds old_map new_map n = []"
      by (simp only: matched_blocks_def if_not_P[OF False] st sum.case None option.case)
    then show ?thesis
      by (simp only: modified_loop.simps(2) if_not_P[OF False] st sum.case None option.case
          filter.simps list.map append_Nil2)
  next
    case (Some k)
    from accepted_best[OF st Some assms(1)] have "k \<in> set olds" by (rule conjunct1)
    with assms(3) have "k \<in> set (map fst old_map)" by (rule subsetD)
    from map_of_key[OF this] obtain obs where obs: "map_of old_map k = Some obs" by (rule exE)
    from map_of_key[OF assms(2)] obtain nbs where nbs: "map_of new_map n = Some nbs" by (rule exE)
    have get: "dict_get new_map n = Inr nbs"
      by (simp only: dict_get_def nbs option.case)
    have mb: "matched_blocks olds old_map new_map n = List.product nbs obs"
      by (simp only: matched_blocks_def if_not_P[OF False] st sum.case Some option.case
          blocks_of_def nbs obs)
    show ?thesis
      by (simp only: modified_loop.simps(2) if_not_P[OF False] st sum.case Some option.case
          get new_blocks_loop_eq[OF obs] mb)
  qed
qed


lemma modified_loop_eq:
  assumes "\<forall>n \<in> set news. n \<noteq> [] \<and> n \<in> set (map fst new_map)"
    and "set olds \<subseteq> set (map fst old_map)"
  shows "modified_loop news olds old_map new_map acc =
     Inr (acc @ map change_of
            (filter verified (concat (map (matched_blocks olds old_map new_map) news))))"
  using assms(1)
proof (induction news arbitrary: acc)
  case Nil
  show ?case by simp
next
  case (Cons n news)
  from Cons.prems have n: "n \<noteq> []" "n \<in> set (map fst new_map)"
    and rest: "\<forall>n \<in> set news. n \<noteq> [] \<and> n \<in> set (map fst new_map)"
    by simp_all
  show ?case
    by (simp only: modified_loop_Cons[OF n assms(2)] Cons.IH[OF rest])
       (simp del: modified_loop.simps)
qed

lemma find_significant_changes_eq:
  assumes "set_semantics set_iter"
  shows "find_significant_changes set_iter old_items new_items t =
     Inr \<lparr>added = unmatched_loop (normalized_map_loop new_items []) (normalized_map_loop old_items []) [],
          removed = unmatched_loop (normalized_map_loop old_items []) (normalized_map_loop new_items []) [],
          modified = map change_of (filter verified (accepted_pairs set_iter old_items new_items))\<rparr>"
proof -
  let ?om = "normalized_map_loop old_items []" and ?nm = "normalized_map_loop new_items []"
  from assms have sets: "set (set_iter (map fst ?om)) = set (map fst ?om)"
      "set (set_iter (map fst ?nm)) = set (map fst ?nm)"
    by (simp_all add: set_semantics_def)
  have news: "\<forall>n \<in> set (set_iter (map fst ?nm)). n \<noteq> [] \<and> n \<in> set (map fst ?nm)"
  proof
    fix n assume "n \<in> set (set_iter (map fst ?nm))"
    then have n: "n \<in> set (map fst ?nm)" by (simp only: sets)
    from normalized_map_key_length[OF this] have "n \<noteq> []" by auto
    with n show "n \<noteq> [] \<and> n \<in> set (map fst ?nm)" by simp
  qed
  have olds: "set (set_iter (map fst ?om)) \<subseteq> set (map fst ?om)"
    by (simp only: sets subset_refl)
  show ?thesis
    by (simp only: find_significant_changes_def Let_def modified_loop_eq[OF news olds]
        accepted_pairs_def sum.case append_Nil)
qed


lemma matched_blocks_mem:
  assumes "(nb, ob) \<in> set (matched_blocks olds om nm n)"
  shows "n \<notin> set olds \<and>
     (\<exists>st k. best_match_loop n olds (None, 0) = Inr st \<and> accepted st = Some k
        \<and> nb \<in> set (blocks_of nm n) \<and> ob \<in> set (blocks_of om k))"
proof (cases "n \<in> set olds")
  case True
  with assms show ?thesis by (simp add: matched_blocks_def)
next
  case False
  show ?thesis
  proof (cases "best_match_loop n olds (None, 0)")
    case (Inl e)
    with assms False show ?thesis by (simp add: matched_blocks_def)
  next
    case (Inr st)
    show ?thesis
    proof (cases "accepted st")
      case None
      with assms False Inr show ?thesis by (simp add: matched_blocks_def)
    next
      case (Some k)
      with assms False Inr have "nb \<in> set (blocks_of nm n) \<and> ob \<in> set (blocks_of om k)"
        by (simp add: matched_blocks_def)
      with False Inr Some show ?thesis by simp
    qed
  qed
qed

lemma blocks_of_mem:
  assumes "b \<in> set (blocks_of m k)"
  shows "\<exists>bs. (k, bs) \<in> set m \<and> b \<in> set bs"
proof (cases "map_of m k")
  case None
  with assms show ?thesis by (simp add: blocks_of_def)
next
  case (Some bs)
  with assms have "b \<in> set bs" by (simp add: blocks_of_def)
  moreover from Some have "(k, bs) \<in> set m" by (rule map_of_SomeD)
  ultimately show ?thesis by (intro exI conjI)
qed

lemma normalized_map_blocks_of:
  assumes "(tag, tx) \<in> set (blocks_of (normalized_map_loop items []) k)"
  shows "(tag, tx) \<in> set items \<and> normalize_text tx = k \<and> 30 \<le> length k"
proof -
  from blocks_of_mem[OF assms] obtain bs
    where "(k, bs) \<in> set (normalized_map_loop items [])" and "(tag, tx) \<in> set bs"
    by (elim exE conjE)
  then show ?thesis by (rule normalized_map_block)
qed

lemma old_key_iff:
  "k \<in> set (map fst (normalized_map_loop items [])) \<longleftrightarrow>
   (\<exists>b \<in> set items. 30 \<le> length (normalize_text (snd b)) \<and> k = normalize_text (snd b))"
  unfolding normalized_map_loop_keys by (auto simp: case_prod_beta)

lemma accepted_pairs_mem:
  assumes sem: "set_semantics set_iter"
    and mem: "((new_tag, new_text), (old_tag, old_text)) \<in> set (accepted_pairs set_iter old_items new_items)"
  shows "(new_tag, new_text) \<in> set new_items \<and> (old_tag, old_text) \<in> set old_items
     \<and> 30 \<le> length (normalize_text new_text) \<and> 30 \<le> length (normalize_text old_text)
     \<and> (\<forall>b \<in> set old_items. normalize_text (snd b) \<noteq> normalize_text new_text)
     \<and> candidate (normalize_text new_text) (normalize_text old_text)
     \<and> 3 / 4 < ratio (normalize_text new_text) (normalize_text old_text)
     \<and> ratio (normalize_text new_text) (normalize_text old_text) < 9 / 10
     \<and> (\<forall>b \<in> set old_items.
           30 \<le> length (normalize_text (snd b)) \<longrightarrow>
           candidate (normalize_text new_text) (normalize_text (snd b)) \<longrightarrow>
           ratio (normalize_text new_text) (normalize_text (snd b))
             \<le> ratio (normalize_text new_text) (normalize_text old_text))"
proof -
  let ?om = "normalized_map_loop old_items []" and ?nm = "normalized_map_loop new_items []"
  let ?olds = "set_iter (map fst ?om)"
  from sem have olds: "set ?olds = set (map fst ?om)"
    by (simp add: set_semantics_def)
  from mem obtain n where
    "((new_tag, new_text), (old_tag, old_text)) \<in> set (matched_blocks ?olds ?om ?nm n)"
    by (auto simp: accepted_pairs_def Let_def)
  from matched_blocks_mem[OF this] obtain st k where
    n: "n \<notin> set ?olds" and st: "best_match_loop n ?olds (None, 0) = Inr st"
    and acc: "accepted st = Some k"
    and nb: "(new_tag, new_text) \<in> set (blocks_of ?nm n)"
    and ob: "(old_tag, old_text) \<in> set (blocks_of ?om k)"
    by (elim exE conjE)
  from normalized_map_blocks_of[OF nb]
  have new: "(new_tag, new_text) \<in> set new_items" "normalize_text new_text = n" "30 \<le> length n"
    by simp_all
  from normalized_map_blocks_of[OF ob]
  have old: "(old_tag, old_text) \<in> set old_items" "normalize_text old_text = k" "30 \<le> length k"
    by simp_all
  from new(3) have "n \<noteq> []" by auto
  from accepted_best[OF st acc this]
  have best: "candidate n k" "3 / 4 < ratio n k" "ratio n k < 9 / 10"
    and mx: "\<forall>k' \<in> set ?olds. candidate n k' \<longrightarrow> ratio n k' \<le> ratio n k"
    by simp_all
  have fresh: "\<forall>b \<in> set old_items. normalize_text (snd b) \<noteq> n"
  proof
    fix b assume b: "b \<in> set old_items"
    show "normalize_text (snd b) \<noteq> n"
    proof
      assume eq: "normalize_text (snd b) = n"
      with new(3) b have "n \<in> set (map fst ?om)"
        unfolding old_key_iff by (intro bexI[of _ b]) simp_all
      with n olds show False by simp
    qed
  qed
  have mx': "\<forall>b \<in> set old_items.
           30 \<le> length (normalize_text (snd b)) \<longrightarrow>
           candidate n (normalize_text (snd b)) \<longrightarrow>
           ratio n (normalize_text (snd b)) \<le> ratio n k"
  proof (intro ballI impI)
    fix b assume b: "b \<in> set old_items" and len: "30 \<le> length (normalize_text (snd b))"
      and cand: "candidate n (normalize_text (snd b))"
    from b len have "normalize_text (snd b) \<in> set (map fst ?om)"
      unfolding old_key_iff by (intro bexI[of _ b]) simp_all
    then have "normalize_text (snd b) \<in> set ?olds" by (simp only: olds)
    with mx cand show "ratio n (normalize_text (snd b)) \<le> ratio n k" by simp
  qed
  from new old best fresh mx' show ?thesis by simp
qed


subsection \<open>Evaluation on the concrete inputs\<close>

lemma set_semantics_remdups: "set_semantics remdups"
  by (simp add: set_semantics_def)

lemma example_eval:
  "find_significant_changes remdups example_old example_new (7 / 10) = Inr example_result"
  by code_simp

lemma word_changes_eq:
  "length (filter (\<lambda>w. w \<notin> set (word_list old_text)) (word_list new_text))
   + length (filter (\<lambda>w. w \<notin> set (word_list new_text)) (word_list old_text))
   = spec_word_changes new_text old_text"
proof -
  let ?n = "word_list new_text" and ?o = "word_list old_text"
  have dn: "distinct ?n" and do: "distinct ?o"
    by (simp_all add: word_list_def)
  have sn: "set ?n = spec_word_set new_text" and so: "set ?o = spec_word_set old_text"
    by (simp_all add: word_list_def spec_word_set_def)
  have "distinct (filter (\<lambda>w. w \<notin> set ?o) ?n)"
    using dn by (rule distinct_filter)
  from distinct_card[OF this]
  have "length (filter (\<lambda>w. w \<notin> set ?o) ?n) = card (set (filter (\<lambda>w. w \<notin> set ?o) ?n))"
    by (rule sym)
  also have "set (filter (\<lambda>w. w \<notin> set ?o) ?n) = spec_word_set new_text - spec_word_set old_text"
    using sn so by auto
  finally have a: "length (filter (\<lambda>w. w \<notin> set ?o) ?n)
      = card (spec_word_set new_text - spec_word_set old_text)" .
  have "distinct (filter (\<lambda>w. w \<notin> set ?n) ?o)"
    using do by (rule distinct_filter)
  from distinct_card[OF this]
  have "length (filter (\<lambda>w. w \<notin> set ?n) ?o) = card (set (filter (\<lambda>w. w \<notin> set ?n) ?o))"
    by (rule sym)
  also have "set (filter (\<lambda>w. w \<notin> set ?n) ?o) = spec_word_set old_text - spec_word_set new_text"
    using sn so by auto
  finally have b: "length (filter (\<lambda>w. w \<notin> set ?n) ?o)
      = card (spec_word_set old_text - spec_word_set new_text)" .
  have fin: "finite (spec_word_set new_text)" "finite (spec_word_set old_text)"
    by (simp_all add: spec_word_set_def)
  have "card ((spec_word_set new_text - spec_word_set old_text)
           \<union> (spec_word_set old_text - spec_word_set new_text))
      = card (spec_word_set new_text - spec_word_set old_text)
        + card (spec_word_set old_text - spec_word_set new_text)"
    using fin by (intro card_Un_disjoint) auto
  with a b show ?thesis by (simp add: spec_word_changes_def)
qed

lemma verified_spec: "verified p = spec_verified p"
proof -
  obtain new_tag new_text old_tag old_text where p: "p = ((new_tag, new_text), (old_tag, old_text))"
    by (cases p) auto
  show ?thesis
    by (simp add: p verified_def spec_verified_def significant_difference_def Let_def
        word_changes_eq)
qed

subsection \<open>Where report entries come from\<close>

lemma excerpt_shape:
  "excerpt tag tx =
     ''<strong>'' @ upper tag @ ''</strong>: ''
       @ (if length tx > 150 then take 150 tx @ ''...'' else tx)"
  by (simp add: excerpt_def)

lemma unmatched_source:
  assumes "e \<in> set (unmatched_loop (normalized_map_loop items []) (normalized_map_loop others []) [])"
  shows "\<exists>b \<in> set items. 50 < length (normalize_text (snd b)) \<and> e = excerpt (fst b) (snd b)"
proof -
  from assms have
    "e \<in># mset (unmatched_loop (normalized_map_loop items []) (normalized_map_loop others []) [])"
    by simp
  then have "e \<in> set (map (\<lambda>(tag, text). excerpt tag text)
     (filter (\<lambda>(tag, text). 50 < length (normalize_text text)
                \<and> normalize_text text \<notin> set (map (\<lambda>(tag, text). normalize_text text) others)) items))"
    unfolding unmatched_mset by simp
  then show ?thesis by (auto simp: case_prod_beta)
qed

lemma report_sources:
  assumes "set_semantics set_iter"
    and "find_significant_changes set_iter old_items new_items t = Inr r"
  shows "(\<forall>e \<in> set (added r). \<exists>b \<in> set new_items.
            50 < length (normalize_text (snd b)) \<and> e = excerpt (fst b) (snd b))"
    and "(\<forall>e \<in> set (removed r). \<exists>b \<in> set old_items.
            50 < length (normalize_text (snd b)) \<and> e = excerpt (fst b) (snd b))"
    and "(\<forall>c \<in> set (modified r). \<exists>nb \<in> set new_items. \<exists>ob \<in> set old_items.
            30 \<le> length (normalize_text (snd nb)) \<and> 30 \<le> length (normalize_text (snd ob))
            \<and> c = \<lparr>old = excerpt (fst ob) (snd ob), new = excerpt (fst nb) (snd nb)\<rparr>)"
proof -
  from assms(2) have r: "added r =
      unmatched_loop (normalized_map_loop new_items []) (normalized_map_loop old_items []) []"
    "removed r =
      unmatched_loop (normalized_map_loop old_items []) (normalized_map_loop new_items []) []"
    "modified r = map change_of (filter verified (accepted_pairs set_iter old_items new_items))"
    unfolding find_significant_changes_eq[OF assms(1)] by auto
  show "\<forall>e \<in> set (added r). \<exists>b \<in> set new_items.
            50 < length (normalize_text (snd b)) \<and> e = excerpt (fst b) (snd b)"
    unfolding r(1) by (intro ballI unmatched_source)
  show "\<forall>e \<in> set (removed r). \<exists>b \<in> set old_items.
            50 < length (normalize_text (snd b)) \<and> e = excerpt (fst b) (snd b)"
    unfolding r(2) by (intro ballI unmatched_source)
  show "\<forall>c \<in> set (modified r). \<exists>nb \<in> set new_items. \<exists>ob \<in> set old_items.
            30 \<le> length (normalize_text (snd nb)) \<and> 30 \<le> length (normalize_text (snd ob))
            \<and> c = \<lparr>old = excerpt (fst ob) (snd ob), new = excerpt (fst nb) (snd nb)\<rparr>"
  proof
    fix c assume "c \<in> set (modified r)"
    then obtain p where p: "p \<in> set (accepted_pairs set_iter old_items new_items)"
      and c: "c = change_of p"
      unfolding r(3) by auto
    obtain new_tag new_text old_tag old_text
      where pq: "p = ((new_tag, new_text), (old_tag, old_text))"
      by (cases p) auto
    from accepted_pairs_mem[OF assms(1) p[unfolded pq]]
    have "(new_tag, new_text) \<in> set new_items" "(old_tag, old_text) \<in> set old_items"
      "30 \<le> length (normalize_text new_text)" "30 \<le> length (normalize_text old_text)"
      by simp_all
    moreover from c have "c = \<lparr>old = excerpt old_tag old_text, new = excerpt new_tag new_text\<rparr>"
      by (simp add: pq change_of_def)
    ultimately show "\<exists>nb \<in> set new_items. \<exists>ob \<in> set old_items.
            30 \<le> length (normalize_text (snd nb)) \<and> 30 \<le> length (normalize_text (snd ob))
            \<and> c = \<lparr>old = excerpt (fst ob) (snd ob), new = excerpt (fst nb) (snd nb)\<rparr>"
      by (intro bexI[of _ "(new_tag, new_text)"] bexI[of _ "(old_tag, old_text)"]) simp_all
  qed
qed

lemma normalized_map_loop_filter:
  "normalized_map_loop (filter (\<lambda>(tag, text). 30 \<le> length (normalize_text text)) items) m =
   normalized_map_loop items m"
proof (induction items arbitrary: m)
  case Nil
  show ?case by simp
next
  case (Cons b items)
  obtain tg tx where b: "b = (tg, tx)" by (cases b)
  show ?case by (simp add: b Cons.IH Let_def)
qed

lemma unmatched_loop_subset:
  "set (map fst m) \<subseteq> set (map fst other) \<Longrightarrow> unmatched_loop m other acc = acc"
  by (induction m other acc rule: unmatched_loop.induct) simp_all

lemma modified_loop_all_old:
  "set news \<subseteq> set olds \<Longrightarrow> modified_loop news olds om nm acc = Inr acc"
  by (induction news) simp_all

subsection \<open>Scenario 3\<close>

lemma scenario3_eval:
  "find_significant_changes remdups scenario3_old scenario3_new (7 / 10) = Inr scenario3_result"
  by code_simp

lemma scenario3_old_keys:
  "map fst (normalized_map_loop scenario3_old []) =
     [''thequickbrownfoxjumpsoverthelazydogneartheriverbanktoday'']"
  by code_simp

lemma scenario3_new_keys:
  "map fst (normalized_map_loop scenario3_new []) =
     [''thequickbrownfoxjumpsoverthelazydogneartheriverbankyesterdayafternoon'']"
  by code_simp

lemma set_semantics_singleton:
  assumes "set_semantics set_iter"
  shows "set_iter [k] = [k]"
proof -
  from assms have d: "distinct (set_iter [k])" and s: "set (set_iter [k]) = {k}"
    by (simp_all add: set_semantics_def)
  from d have "length (set_iter [k]) = card (set (set_iter [k]))"
    by (simp add: distinct_card)
  with s have "length (set_iter [k]) = 1" by simp
  then obtain x where x: "set_iter [k] = [x]"
    by (cases "set_iter [k]") auto
  with s show ?thesis by simp
qed

lemma find_significant_changes_cong:
  assumes "set_iter (map fst (normalized_map_loop old_items [])) =
           set_iter' (map fst (normalized_map_loop old_items []))"
    and "set_iter (map fst (normalized_map_loop new_items [])) =
         set_iter' (map fst (normalized_map_loop new_items []))"
  shows "find_significant_changes set_iter old_items new_items t =
         find_significant_changes set_iter' old_items new_items t'"
  using assms by (simp only: find_significant_changes_def Let_def)

subsection \<open>The Extractor\<close>

lemma extract_tag_loop_mem:
  assumes "(tag, tx) \<in> set (extract_tag_loop tag_name raws acc)"
  shows "(tag, tx) \<in> set acc
     \<or> (tag = tag_name \<and> (\<exists>raw \<in> set raws. tx = strip raw)
        \<and> length tx > 10 \<and> \<not> match_digits_nonword tx)"
  using assms
proof (induction raws arbitrary: acc)
  case Nil
  then show ?case by simp
next
  case (Cons raw raws)
  show ?case
  proof (cases "length (strip raw) > 10 \<and> \<not> match_digits_nonword (strip raw)")
    case True
    with Cons.prems have "(tag, tx) \<in> set (extract_tag_loop tag_name raws (acc @ [(tag_name, strip raw)]))"
      by (simp add: Let_def)
    from Cons.IH[OF this] True show ?thesis by auto
  next
    case False
    with Cons.prems have "(tag, tx) \<in> set (extract_tag_loop tag_name raws acc)"
      by (auto simp: Let_def)
    from Cons.IH[OF this] show ?thesis by auto
  qed
qed

lemma extract_loop_mem:
  assumes "(tag, tx) \<in> set (extract_loop find_all tags acc)"
  shows "(tag, tx) \<in> set acc
     \<or> (tag \<in> set tags \<and> (\<exists>raw \<in> set (find_all tag). tx = strip raw)
        \<and> length tx > 10 \<and> \<not> match_digits_nonword tx)"
  using assms
proof (induction tags arbitrary: acc)
  case Nil
  then show ?case by simp
next
  case (Cons tag_name tags)
  from Cons.prems have
    "(tag, tx) \<in> set (extract_loop find_all tags (extract_tag_loop tag_name (find_all tag_name) acc))"
    by simp
  from Cons.IH[OF this] show ?case
  proof
    assume "(tag, tx) \<in> set (extract_tag_loop tag_name (find_all tag_name) acc)"
    from extract_tag_loop_mem[OF this] show ?thesis by auto
  next
    assume "tag \<in> set tags \<and> (\<exists>raw \<in> set (find_all tag). tx = strip raw)
        \<and> length tx > 10 \<and> \<not> match_digits_nonword tx"
    then show ?thesis by simp
  qed
qed

text \<open>
  What the Extractor guarantees: every block it returns has one of the significant tag
  names, is the trimmed text of an element of that name, is longer than 10 characters,
  does not consist of digits and non-word characters only, and therefore contains a
  word character that is no digit. In particular the text \<open>12345 !!! ---\<close> is never returned.
\<close>

lemma extracted_blocks:
  assumes "(tag, tx) \<in> set (extract_meaningful_text html_content)"
  shows "tag \<in> set significant_tags
     \<and> (\<exists>find_all. html_content = Some find_all \<and> (\<exists>raw \<in> set (find_all tag). tx = strip raw))
     \<and> length tx > 10
     \<and> \<not> match_digits_nonword tx
     \<and> (\<exists>c \<in> set tx. is_word c \<and> \<not> is_digit c)
     \<and> tx \<noteq> ''12345 !!! ---''"
proof -
  from assms obtain find_all where some: "html_content = Some find_all"
    and mem: "(tag, tx) \<in> set (extract_loop find_all significant_tags [])"
    by (cases html_content) (simp_all add: extract_meaningful_text_def)
  from extract_loop_mem[OF mem]
  have tag: "tag \<in> set significant_tags" and raw: "\<exists>raw \<in> set (find_all tag). tx = strip raw"
    and len: "length tx > 10" and nm: "\<not> match_digits_nonword tx"
    by simp_all
  from len have "tx \<noteq> []" by auto
  with nm have letter: "\<exists>c \<in> set tx. is_word c \<and> \<not> is_digit c"
    by (auto simp: match_digits_nonword_def list_all_iff)
  have "match_digits_nonword ''12345 !!! ---''"
    by code_simp
  with nm have "tx \<noteq> ''12345 !!! ---''" by auto
  with some tag raw len nm letter show ?thesis by simp
qed

subsection \<open>The longest common subsequence\<close>

lemma common_subseq_le_lcs:
  "subseq zs a \<Longrightarrow> subseq zs b \<Longrightarrow> length zs \<le> spec_lcs_length a b"
proof (induction a b arbitrary: zs rule: spec_lcs_length.induct)
  case (1 ys)
  then show ?case by simp
next
  case (2 x xs)
  then show ?case by simp
next
  case (3 x xs y ys)
  show ?case
  proof (cases zs)
    case Nil
    then show ?thesis by simp
  next
    case (Cons z zs')
    show ?thesis
    proof (cases "x = y")
      case True
      from "3.prems"(1) have "subseq zs' xs"
        unfolding Cons by (cases "z = x") (auto dest: subseq_Cons')
      moreover from "3.prems"(2) have "subseq zs' ys"
        unfolding Cons by (cases "z = y") (auto dest: subseq_Cons')
      ultimately have "length zs' \<le> spec_lcs_length xs ys"
        by (rule "3.IH"(1)[OF True])
      with True show ?thesis
        by (simp add: Cons)
    next
      case False
      show ?thesis
      proof (cases "z = x")
        case True
        with False have "z \<noteq> y" by simp
        with "3.prems"(2) have "subseq zs ys"
          unfolding Cons by (simp add: subseq_Cons2_neq)
        from "3.IH"(3)[OF False "3.prems"(1) this] False show ?thesis
          by simp
      next
        case zx: False
        with "3.prems"(1) have "subseq zs xs"
          unfolding Cons by (simp add: subseq_Cons2_neq)
        from "3.IH"(2)[OF False this "3.prems"(2)] False show ?thesis
          by simp
      qed
    qed
  qed
qed

lemma typo_eval:
  "find_significant_changes remdups typo_old typo_new (7 / 10) = Inr typo_result"
  by code_simp

lemma typo_new_key:
  "normalize_text ''eta delta kaoppa beta alpha thezota ilhota ............................................................''
     = ''etadeltakaoppabetaalphathezotailhota''"
  by code_simp

lemma typo_old_key:
  "normalize_text ''eta delta kappa beta alpha theta iota'' = ''etadeltakappabetaalphathetaiota''"
  by code_simp

lemma typo_ratio:
  "ratio ''etadeltakaoppabetaalphathezotailhota'' ''etadeltakappabetaalphathetaiota'' = 56 / 67"
  by code_simp

lemma typo_subseq:
  "subseq ''etadeltakappabetaalphathetaiota'' ''etadeltakaoppabetaalphathezotailhota''"
  by code_simp

lemma typo_lcs_ratio:
  "9 / 10 \<le> spec_lcs_ratio ''etadeltakaoppabetaalphathezotailhota'' ''etadeltakappabetaalphathetaiota''"
proof -
  define n where
    "n = spec_lcs_length ''etadeltakaoppabetaalphathezotailhota'' ''etadeltakappabetaalphathetaiota''"
  have "length ''etadeltakappabetaalphathetaiota'' \<le> n"
    unfolding n_def by (rule common_subseq_le_lcs[OF typo_subseq subseq_order.order_refl])
  then have "31 \<le> n"
    by simp
  then have "(31 :: rat) \<le> of_nat n"
    by simp
  moreover have "spec_lcs_ratio ''etadeltakaoppabetaalphathezotailhota'' ''etadeltakappabetaalphathetaiota''
      = 2 * of_nat n / 67"
    unfolding spec_lcs_ratio_def n_def[symmetric] by simp
  ultimately show ?thesis
    by simp
qed

section \<open>The claims\<close>

text \<open>
  Claim C1, as amended. Every modified entry of the report pairs a new block with an old
  block such that: the normalized key of the new block is the key of no old block; the
  old key survives the length pre-filter \<open>min(len) / max(len) >= 0.75\<close>; the similarity
  ratio of the two normalized keys, as \<open>SequenceMatcher(None, new_norm, old_norm).ratio()\<close>
  computes it from its matching blocks, is strictly between 0.75 and 0.9; and no old key
  that survives the pre-filter has a larger ratio. No modified entry is produced in any
  other way. The ratio is not the one based on the longest common subsequence, which can
  be larger.
\<close>

theorem modified_only_for_best_match:
  assumes "set_semantics set_iter"
    and "find_significant_changes set_iter old_items new_items t = Inr r"
    and "e \<in> set (modified r)"
  shows "\<exists>new_tag new_text old_tag old_text.
     (new_tag, new_text) \<in> set new_items \<and> (old_tag, old_text) \<in> set old_items
     \<and> e = \<lparr>old = excerpt old_tag old_text, new = excerpt new_tag new_text\<rparr>
     \<and> (\<forall>b \<in> set old_items. normalize_text (snd b) \<noteq> normalize_text new_text)
     \<and> candidate (normalize_text new_text) (normalize_text old_text)
     \<and> 3 / 4 < ratio (normalize_text new_text) (normalize_text old_text)
     \<and> ratio (normalize_text new_text) (normalize_text old_text) < 9 / 10
     \<and> (\<forall>b \<in> set old_items.
           30 \<le> length (normalize_text (snd b)) \<longrightarrow>
           candidate (normalize_text new_text) (normalize_text (snd b)) \<longrightarrow>
           ratio (normalize_text new_text) (normalize_text (snd b))
             \<le> ratio (normalize_text new_text) (normalize_text old_text))"
proof -
  from assms(2) have "modified r =
      map change_of (filter verified (accepted_pairs set_iter old_items new_items))"
    unfolding find_significant_changes_eq[OF assms(1)] by auto
  with assms(3) obtain p where p: "p \<in> set (accepted_pairs set_iter old_items new_items)"
    and e: "e = change_of p"
    by auto
  obtain new_tag new_text old_tag old_text
    where pq: "p = ((new_tag, new_text), (old_tag, old_text))"
    by (cases p) auto
  from e have "e = \<lparr>old = excerpt old_tag old_text, new = excerpt new_tag new_text\<rparr>"
    by (simp add: pq change_of_def)
  with accepted_pairs_mem[OF assms(1) p[unfolded pq]] show ?thesis
    by (intro exI[of _ new_tag] exI[of _ new_text] exI[of _ old_tag] exI[of _ old_text]) simp
qed

theorem modified_only_for_best_match_witness:
  "set_semantics remdups
   \<and> find_significant_changes remdups example_old example_new (7 / 10) = Inr example_result
   \<and> example_change \<in> set (modified example_result)
   \<and> (\<exists>new_tag new_text old_tag old_text.
     (new_tag, new_text) \<in> set example_new \<and> (old_tag, old_text) \<in> set example_old
     \<and> example_change = \<lparr>old = excerpt old_tag old_text, new = excerpt new_tag new_text\<rparr>
     \<and> (\<forall>b \<in> set example_old. normalize_text (snd b) \<noteq> normalize_text new_text)
     \<and> candidate (normalize_text new_text) (normalize_text old_text)
     \<and> 3 / 4 < ratio (normalize_text new_text) (normalize_text old_text)
     \<and> ratio (normalize_text new_text) (normalize_text old_text) < 9 / 10
     \<and> (\<forall>b \<in> set example_old.
           30 \<le> length (normalize_text (snd b)) \<longrightarrow>
           candidate (normalize_text new_text) (normalize_text (snd b)) \<longrightarrow>
           ratio (normalize_text new_text) (normalize_text (snd b))
             \<le> ratio (normalize_text new_text) (normalize_text old_text)))"
proof -
  have mem: "example_change \<in> set (modified example_result)"
    by (simp add: example_result_def example_change_def)
  from modified_only_for_best_match[OF set_semantics_remdups example_eval mem]
  show ?thesis
    using set_semantics_remdups example_eval mem by (intro conjI)
qed

text \<open>
  With the ratio based on the longest common subsequence the claim fails: for the list of
  words and its misspelt copy that ratio is at least 0.9 (the old key is a subsequence of
  the new key), the matcher's ratio is 56/67, and a modified entry is reported.
\<close>

theorem lcs_ratio_counterexample:
  "find_significant_changes remdups typo_old typo_new (7 / 10) = Inr typo_result
   \<and> modified typo_result \<noteq> []
   \<and> normalize_text ''eta delta kaoppa beta alpha thezota ilhota ............................................................''
       = ''etadeltakaoppabetaalphathezotailhota''
   \<and> normalize_text ''eta delta kappa beta alpha theta iota'' = ''etadeltakappabetaalphathetaiota''
   \<and> 9 / 10 \<le> spec_lcs_ratio ''etadeltakaoppabetaalphathezotailhota'' ''etadeltakappabetaalphathetaiota''
   \<and> ratio ''etadeltakaoppabetaalphathezotailhota'' ''etadeltakappabetaalphathetaiota'' = 56 / 67"
proof -
  have "modified typo_result \<noteq> []"
    by (simp add: typo_result_def)
  with typo_eval typo_new_key typo_old_key typo_lcs_ratio typo_ratio show ?thesis
    by (intro conjI)
qed

text \<open>
  Claim C2. The modified entries are exactly the entries of those fuzzy-accepted pairs of
  blocks, in the order of the loops, for which, on the original texts, the symmetric
  difference of the case-folded word sets has at least 5 elements and the lengths differ
  by more than 50 characters.
\<close>

theorem modified_iff_verified:
  assumes "set_semantics set_iter"
    and "find_significant_changes set_iter old_items new_items t = Inr r"
  shows "modified r =
     map (\<lambda>((new_tag, new_text), (old_tag, old_text)).
            \<lparr>old = excerpt old_tag old_text, new = excerpt new_tag new_text\<rparr>)
       (filter (\<lambda>((new_tag, new_text), (old_tag, old_text)).
                  spec_word_changes new_text old_text \<ge> 5
                  \<and> \<bar>int (length new_text) - int (length old_text)\<bar> > 50)
          (accepted_pairs set_iter old_items new_items))"
proof -
  from assms(2) have "modified r =
      map change_of (filter verified (accepted_pairs set_iter old_items new_items))"
    unfolding find_significant_changes_eq[OF assms(1)] by auto
  also have "verified = (\<lambda>((new_tag, new_text), (old_tag, old_text)).
                  spec_word_changes new_text old_text \<ge> 5
                  \<and> \<bar>int (length new_text) - int (length old_text)\<bar> > 50)"
    by (rule ext) (simp add: verified_spec spec_verified_def split: prod.splits)
  also have "change_of = (\<lambda>((new_tag, new_text), (old_tag, old_text)).
            \<lparr>old = excerpt old_tag old_text, new = excerpt new_tag new_text\<rparr>)"
    by (rule ext) (simp add: change_of_def split: prod.splits)
  finally show ?thesis .
qed

theorem modified_iff_verified_witness:
  "set_semantics remdups
   \<and> find_significant_changes remdups example_old example_new (7 / 10) = Inr example_result
   \<and> modified example_result \<noteq> []
   \<and> modified example_result =
     map (\<lambda>((new_tag, new_text), (old_tag, old_text)).
            \<lparr>old = excerpt old_tag old_text, new = excerpt new_tag new_text\<rparr>)
       (filter (\<lambda>((new_tag, new_text), (old_tag, old_text)).
                  spec_word_changes new_text old_text \<ge> 5
                  \<and> \<bar>int (length new_text) - int (length old_text)\<bar> > 50)
          (accepted_pairs remdups example_old example_new))"
proof -
  have "modified example_result \<noteq> []"
    by (simp add: example_result_def)
  with modified_iff_verified[OF set_semantics_remdups example_eval]
  show ?thesis
    using set_semantics_remdups example_eval by (intro conjI)
qed

text \<open>
  Claim C3. As multisets, \<open>added\<close> holds one entry for every new block whose normalized key
  is longer than 50 and is the key of no old block, duplicates included, and nothing else;
  \<open>removed\<close> holds one entry for every old block whose normalized key is longer than 50 and
  is the key of no new block, and nothing else. A key of length 50 or less contributes to
  neither.
\<close>

theorem added_and_removed:
  assumes "find_significant_changes set_iter old_items new_items t = Inr r"
  shows "mset (added r) =
       mset (map (\<lambda>(tag, text). excerpt tag text)
         (filter (\<lambda>(tag, text). 50 < length (normalize_text text)
              \<and> normalize_text text \<notin> set (map (\<lambda>(tag, text). normalize_text text) old_items))
            new_items))
     \<and> mset (removed r) =
       mset (map (\<lambda>(tag, text). excerpt tag text)
         (filter (\<lambda>(tag, text). 50 < length (normalize_text text)
              \<and> normalize_text text \<notin> set (map (\<lambda>(tag, text). normalize_text text) new_items))
            old_items))"
proof -
  from assms have "added r =
      unmatched_loop (normalized_map_loop new_items []) (normalized_map_loop old_items []) []"
    and "removed r =
      unmatched_loop (normalized_map_loop old_items []) (normalized_map_loop new_items []) []"
    by (auto simp: find_significant_changes_def Let_def split: sum.splits)
  then show ?thesis by (simp only: unmatched_mset)
qed

theorem added_and_removed_witness:
  "find_significant_changes remdups example_old example_new (7 / 10) = Inr example_result
   \<and> size (mset (added example_result)) = 2 \<and> size (mset (removed example_result)) = 1
   \<and> mset (added example_result) =
       mset (map (\<lambda>(tag, text). excerpt tag text)
         (filter (\<lambda>(tag, text). 50 < length (normalize_text text)
              \<and> normalize_text text \<notin> set (map (\<lambda>(tag, text). normalize_text text) example_old))
            example_new))
   \<and> mset (removed example_result) =
       mset (map (\<lambda>(tag, text). excerpt tag text)
         (filter (\<lambda>(tag, text). 50 < length (normalize_text text)
              \<and> normalize_text text \<notin> set (map (\<lambda>(tag, text). normalize_text text) example_new))
            example_old))"
proof -
  have "size (mset (added example_result)) = 2" and "size (mset (removed example_result)) = 1"
    by (simp_all add: example_result_def)
  with added_and_removed[OF example_eval] example_eval show ?thesis
    by (intro conjI) simp_all
qed

text \<open>
  Claim C4. A block whose normalized key is shorter than 30 characters is never considered:
  dropping all such blocks from both inputs leaves the result unchanged, and every entry
  of \<open>added\<close>, \<open>removed\<close> and \<open>modified\<close> is the excerpt of input blocks whose normalized
  keys have at least 30 characters.
\<close>

theorem short_blocks_never_reported:
  assumes "set_semantics set_iter"
    and "find_significant_changes set_iter old_items new_items t = Inr r"
  shows "find_significant_changes set_iter
           (filter (\<lambda>(tag, text). 30 \<le> length (normalize_text text)) old_items)
           (filter (\<lambda>(tag, text). 30 \<le> length (normalize_text text)) new_items) t = Inr r
     \<and> (\<forall>e \<in> set (added r). \<exists>(tag, text) \<in> set new_items.
            30 \<le> length (normalize_text text) \<and> e = excerpt tag text)
     \<and> (\<forall>e \<in> set (removed r). \<exists>(tag, text) \<in> set old_items.
            30 \<le> length (normalize_text text) \<and> e = excerpt tag text)
     \<and> (\<forall>c \<in> set (modified r).
            \<exists>(new_tag, new_text) \<in> set new_items. \<exists>(old_tag, old_text) \<in> set old_items.
              30 \<le> length (normalize_text new_text) \<and> 30 \<le> length (normalize_text old_text)
              \<and> c = \<lparr>old = excerpt old_tag old_text, new = excerpt new_tag new_text\<rparr>)"
proof (intro conjI)
  show "find_significant_changes set_iter
           (filter (\<lambda>(tag, text). 30 \<le> length (normalize_text text)) old_items)
           (filter (\<lambda>(tag, text). 30 \<le> length (normalize_text text)) new_items) t = Inr r"
    using assms(2) by (simp only: find_significant_changes_def normalized_map_loop_filter)
  show "\<forall>e \<in> set (added r). \<exists>(tag, text) \<in> set new_items.
            30 \<le> length (normalize_text text) \<and> e = excerpt tag text"
  proof
    fix e assume "e \<in> set (added r)"
    from report_sources(1)[OF assms, rule_format, OF this] obtain b where "b \<in> set new_items"
      "50 < length (normalize_text (snd b))" "e = excerpt (fst b) (snd b)"
      by blast
    then show "\<exists>(tag, text) \<in> set new_items. 30 \<le> length (normalize_text text) \<and> e = excerpt tag text"
      by (intro bexI[of _ b]) (simp_all add: case_prod_beta)
  qed
  show "\<forall>e \<in> set (removed r). \<exists>(tag, text) \<in> set old_items.
            30 \<le> length (normalize_text text) \<and> e = excerpt tag text"
  proof
    fix e assume "e \<in> set (removed r)"
    from report_sources(2)[OF assms, rule_format, OF this] obtain b where "b \<in> set old_items"
      "50 < length (normalize_text (snd b))" "e = excerpt (fst b) (snd b)"
      by blast
    then show "\<exists>(tag, text) \<in> set old_items. 30 \<le> length (normalize_text text) \<and> e = excerpt tag text"
      by (intro bexI[of _ b]) (simp_all add: case_prod_beta)
  qed
  show "\<forall>c \<in> set (modified r).
            \<exists>(new_tag, new_text) \<in> set new_items. \<exists>(old_tag, old_text) \<in> set old_items.
              30 \<le> length (normalize_text new_text) \<and> 30 \<le> length (normalize_text old_text)
              \<and> c = \<lparr>old = excerpt old_tag old_text, new = excerpt new_tag new_text\<rparr>"
  proof
    fix c assume "c \<in> set (modified r)"
    from report_sources(3)[OF assms, rule_format, OF this] obtain nb ob where "nb \<in> set new_items" "ob \<in> set old_items"
      "30 \<le> length (normalize_text (snd nb))" "30 \<le> length (normalize_text (snd ob))"
      "c = \<lparr>old = excerpt (fst ob) (snd ob), new = excerpt (fst nb) (snd nb)\<rparr>"
      by blast
    then have "\<exists>y \<in> set new_items. \<exists>x \<in> set old_items.
              30 \<le> length (normalize_text (snd y)) \<and> 30 \<le> length (normalize_text (snd x))
              \<and> c = \<lparr>old = excerpt (fst x) (snd x), new = excerpt (fst y) (snd y)\<rparr>"
      by blast
    then show "\<exists>(new_tag, new_text) \<in> set new_items. \<exists>(old_tag, old_text) \<in> set old_items.
              30 \<le> length (normalize_text new_text) \<and> 30 \<le> length (normalize_text old_text)
              \<and> c = \<lparr>old = excerpt old_tag old_text, new = excerpt new_tag new_text\<rparr>"
      by (simp only: case_prod_unfold)
  qed
qed

theorem short_blocks_never_reported_witness:
  "set_semantics remdups
   \<and> find_significant_changes remdups example_old example_new (7 / 10) = Inr example_result
   \<and> find_significant_changes remdups
           (filter (\<lambda>(tag, text). 30 \<le> length (normalize_text text)) example_old)
           (filter (\<lambda>(tag, text). 30 \<le> length (normalize_text text)) example_new) (7 / 10)
        = Inr example_result
   \<and> (\<exists>(tag, text) \<in> set example_new.
         30 \<le> length (normalize_text text) \<and> hd (added example_result) = excerpt tag text)
   \<and> (\<exists>(tag, text) \<in> set example_old.
         30 \<le> length (normalize_text text) \<and> hd (removed example_result) = excerpt tag text)
   \<and> (\<exists>(new_tag, new_text) \<in> set example_new. \<exists>(old_tag, old_text) \<in> set example_old.
         30 \<le> length (normalize_text new_text) \<and> 30 \<le> length (normalize_text old_text)
         \<and> example_change = \<lparr>old = excerpt old_tag old_text, new = excerpt new_tag new_text\<rparr>)"
proof -
  have mem: "hd (added example_result) \<in> set (added example_result)"
    "hd (removed example_result) \<in> set (removed example_result)"
    "example_change \<in> set (modified example_result)"
    by (simp_all add: example_result_def example_change_def)
  note inst = short_blocks_never_reported[OF set_semantics_remdups example_eval]
  from inst have "find_significant_changes remdups
           (filter (\<lambda>(tag, text). 30 \<le> length (normalize_text text)) example_old)
           (filter (\<lambda>(tag, text). 30 \<le> length (normalize_text text)) example_new) (7 / 10)
        = Inr example_result"
    by (rule conjunct1)
  moreover from inst mem(1) have "\<exists>(tag, text) \<in> set example_new.
         30 \<le> length (normalize_text text) \<and> hd (added example_result) = excerpt tag text"
    by blast
  moreover from inst mem(2) have "\<exists>(tag, text) \<in> set example_old.
         30 \<le> length (normalize_text text) \<and> hd (removed example_result) = excerpt tag text"
    by blast
  moreover from inst mem(3) have
    "\<exists>(new_tag, new_text) \<in> set example_new. \<exists>(old_tag, old_text) \<in> set example_old.
         30 \<le> length (normalize_text new_text) \<and> 30 \<le> length (normalize_text old_text)
         \<and> example_change = \<lparr>old = excerpt old_tag old_text, new = excerpt new_tag new_text\<rparr>"
    by blast
  ultimately show ?thesis
    using set_semantics_remdups example_eval by (intro conjI)
qed

text \<open>
  Claim C5, as amended. For the two single-paragraph lists of Scenario 3 the Matcher
  returns no modified entry, one added entry (the new paragraph) and one removed entry
  (the old paragraph), for every set iteration order and every threshold: the two keys
  differ and both are longer than 50, and the original texts differ in length by 13
  characters only, which is not more than 50.
\<close>

theorem scenario3_report:
  assumes "set_semantics set_iter"
  shows "find_significant_changes set_iter scenario3_old scenario3_new t = Inr scenario3_result
     \<and> length (modified scenario3_result) = 0
     \<and> length (added scenario3_result) = 1
     \<and> length (removed scenario3_result) = 1"
proof -
  have "find_significant_changes set_iter scenario3_old scenario3_new t =
        find_significant_changes remdups scenario3_old scenario3_new (7 / 10)"
    by (rule find_significant_changes_cong)
       (simp_all only: scenario3_old_keys scenario3_new_keys set_semantics_singleton[OF assms]
          set_semantics_singleton[OF set_semantics_remdups])
  then show ?thesis
    by (simp add: scenario3_eval) (simp add: scenario3_result_def)
qed

theorem scenario3_report_witness:
  "set_semantics remdups
   \<and> find_significant_changes remdups scenario3_old scenario3_new (1 / 2) = Inr scenario3_result
   \<and> length (modified scenario3_result) = 0
   \<and> length (added scenario3_result) = 1
   \<and> length (removed scenario3_result) = 1"
  using scenario3_report[OF set_semantics_remdups, of "1 / 2"] set_semantics_remdups
  by (intro conjI) simp_all

theorem scenario3_counterexample:
  "find_significant_changes remdups scenario3_old scenario3_new (7 / 10) = Inr scenario3_result
   \<and> length (modified scenario3_result) \<noteq> 1
   \<and> length (added scenario3_result) \<noteq> 0
   \<and> length (removed scenario3_result) \<noteq> 0
   \<and> \<not> significant_difference
         ''The quick brown fox jumps over the lazy dog near the riverbank yesterday afternoon.''
         ''The quick brown fox jumps over the lazy dog near the river bank today.''
   \<and> \<bar>int (length ''The quick brown fox jumps over the lazy dog near the riverbank yesterday afternoon.'')
        - int (length ''The quick brown fox jumps over the lazy dog near the river bank today.'')\<bar> = 13"
proof -
  have "\<not> significant_difference
         ''The quick brown fox jumps over the lazy dog near the riverbank yesterday afternoon.''
         ''The quick brown fox jumps over the lazy dog near the river bank today.''"
    by (simp add: significant_difference_def Let_def)
  then show ?thesis
    by (simp add: scenario3_eval) (simp add: scenario3_result_def)
qed

text \<open>
  Claim C6. Matching a list of blocks against itself reports nothing: \<open>added\<close>, \<open>removed\<close>
  and \<open>modified\<close> are all empty, whatever the blocks and the set iteration order.
\<close>

theorem match_self_empty:
  "find_significant_changes set_iter items items t =
     Inr \<lparr>added = [], removed = [], modified = []\<rparr>"
  by (simp add: find_significant_changes_def Let_def unmatched_loop_subset modified_loop_all_old)

text \<open>
  Claim C7. Every excerpt of the report is the label of a block, \<open><strong>TAG</strong>: \<close>,
  followed by the first 150 characters of the block's original text and the marker \<open>...\<close>
  when that text is longer than 150 characters, and by the whole text with no marker
  otherwise.
\<close>

theorem excerpt_truncation:
  assumes "set_semantics set_iter"
    and "find_significant_changes set_iter old_items new_items t = Inr r"
  shows "(\<forall>e \<in> set (added r). \<exists>(tag, text) \<in> set new_items.
            e = ''<strong>'' @ upper tag @ ''</strong>: ''
                  @ (if length text > 150 then take 150 text @ ''...'' else text))
     \<and> (\<forall>e \<in> set (removed r). \<exists>(tag, text) \<in> set old_items.
            e = ''<strong>'' @ upper tag @ ''</strong>: ''
                  @ (if length text > 150 then take 150 text @ ''...'' else text))
     \<and> (\<forall>c \<in> set (modified r).
            \<exists>(new_tag, new_text) \<in> set new_items. \<exists>(old_tag, old_text) \<in> set old_items.
              old c = ''<strong>'' @ upper old_tag @ ''</strong>: ''
                  @ (if length old_text > 150 then take 150 old_text @ ''...'' else old_text)
              \<and> new c = ''<strong>'' @ upper new_tag @ ''</strong>: ''
                  @ (if length new_text > 150 then take 150 new_text @ ''...'' else new_text))"
proof (intro conjI)
  show "\<forall>e \<in> set (added r). \<exists>(tag, text) \<in> set new_items.
            e = ''<strong>'' @ upper tag @ ''</strong>: ''
                  @ (if length text > 150 then take 150 text @ ''...'' else text)"
  proof
    fix e assume "e \<in> set (added r)"
    from report_sources(1)[OF assms, rule_format, OF this] obtain b where "b \<in> set new_items"
      "e = excerpt (fst b) (snd b)"
      by blast
    then show "\<exists>(tag, text) \<in> set new_items.
            e = ''<strong>'' @ upper tag @ ''</strong>: ''
                  @ (if length text > 150 then take 150 text @ ''...'' else text)"
      by (intro bexI[of _ b]) (simp_all only: case_prod_unfold excerpt_shape)
  qed
  show "\<forall>e \<in> set (removed r). \<exists>(tag, text) \<in> set old_items.
            e = ''<strong>'' @ upper tag @ ''</strong>: ''
                  @ (if length text > 150 then take 150 text @ ''...'' else text)"
  proof
    fix e assume "e \<in> set (removed r)"
    from report_sources(2)[OF assms, rule_format, OF this] obtain b where "b \<in> set old_items"
      "e = excerpt (fst b) (snd b)"
      by blast
    then show "\<exists>(tag, text) \<in> set old_items.
            e = ''<strong>'' @ upper tag @ ''</strong>: ''
                  @ (if length text > 150 then take 150 text @ ''...'' else text)"
      by (intro bexI[of _ b]) (simp_all only: case_prod_unfold excerpt_shape)
  qed
  show "\<forall>c \<in> set (modified r).
            \<exists>(new_tag, new_text) \<in> set new_items. \<exists>(old_tag, old_text) \<in> set old_items.
              old c = ''<strong>'' @ upper old_tag @ ''</strong>: ''
                  @ (if length old_text > 150 then take 150 old_text @ ''...'' else old_text)
              \<and> new c = ''<strong>'' @ upper new_tag @ ''</strong>: ''
                  @ (if length new_text > 150 then take 150 new_text @ ''...'' else new_text)"
  proof
    fix c assume "c \<in> set (modified r)"
    from report_sources(3)[OF assms, rule_format, OF this] obtain nb ob where "nb \<in> set new_items" "ob \<in> set old_items"
      "c = \<lparr>old = excerpt (fst ob) (snd ob), new = excerpt (fst nb) (snd nb)\<rparr>"
      by blast
    then have "\<exists>y \<in> set new_items. \<exists>x \<in> set old_items.
              old c = excerpt (fst x) (snd x) \<and> new c = excerpt (fst y) (snd y)"
      by (intro bexI[of _ nb] bexI[of _ ob]) simp_all
    then show "\<exists>(new_tag, new_text) \<in> set new_items. \<exists>(old_tag, old_text) \<in> set old_items.
              old c = ''<strong>'' @ upper old_tag @ ''</strong>: ''
                  @ (if length old_text > 150 then take 150 old_text @ ''...'' else old_text)
              \<and> new c = ''<strong>'' @ upper new_tag @ ''</strong>: ''
                  @ (if length new_text > 150 then take 150 new_text @ ''...'' else new_text)"
      by (simp only: case_prod_unfold excerpt_shape)
  qed
qed

theorem excerpt_truncation_witness:
  "set_semantics remdups
   \<and> find_significant_changes remdups example_old example_new (7 / 10) = Inr example_result
   \<and> (\<exists>(tag, text) \<in> set example_new.
         hd (added example_result) = ''<strong>'' @ upper tag @ ''</strong>: ''
            @ (if length text > 150 then take 150 text @ ''...'' else text))
   \<and> (\<exists>(tag, text) \<in> set example_old.
         hd (removed example_result) = ''<strong>'' @ upper tag @ ''</strong>: ''
            @ (if length text > 150 then take 150 text @ ''...'' else text))
   \<and> (\<exists>(new_tag, new_text) \<in> set example_new. \<exists>(old_tag, old_text) \<in> set example_old.
         old example_change = ''<strong>'' @ upper old_tag @ ''</strong>: ''
            @ (if length old_text > 150 then take 150 old_text @ ''...'' else old_text)
         \<and> new example_change = ''<strong>'' @ upper new_tag @ ''</strong>: ''
            @ (if length new_text > 150 then take 150 new_text @ ''...'' else new_text))"
proof -
  have mem: "hd (added example_result) \<in> set (added example_result)"
    "hd (removed example_result) \<in> set (removed example_result)"
    "example_change \<in> set (modified example_result)"
    by (simp_all add: example_result_def example_change_def)
  note inst = excerpt_truncation[OF set_semantics_remdups example_eval]
  from inst mem(1) have "\<exists>(tag, text) \<in> set example_new.
         hd (added example_result) = ''<strong>'' @ upper tag @ ''</strong>: ''
            @ (if length text > 150 then take 150 text @ ''...'' else text)"
    by blast
  moreover from inst mem(2) have "\<exists>(tag, text) \<in> set example_old.
         hd (removed example_result) = ''<strong>'' @ upper tag @ ''</strong>: ''
            @ (if length text > 150 then take 150 text @ ''...'' else text)"
    by blast
  moreover from inst mem(3) have
    "\<exists>(new_tag, new_text) \<in> set example_new. \<exists>(old_tag, old_text) \<in> set example_old.
         old example_change = ''<strong>'' @ upper old_tag @ ''</strong>: ''
            @ (if length old_text > 150 then take 150 old_text @ ''...'' else old_text)
         \<and> new example_change = ''<strong>'' @ upper new_tag @ ''</strong>: ''
            @ (if length new_text > 150 then take 150 new_text @ ''...'' else new_text)"
    by blast
  ultimately show ?thesis
    using set_semantics_remdups example_eval by (intro conjI)
qed

text \<open>
  Claim C8. The claim asks that every extracted block contain a letter. The Extractor
  does return a paragraph whose text is eleven underscores and holds no letter: the text
  is longer than 10 characters, and the pattern \<open>^[\d\W]+$\<close> does not match it because
  the underscore is a word character. (The text \<open>12345 !!! ---\<close> of the same document is
  dropped, as the claim says.)
\<close>

theorem underscores_are_extracted:
  "extract_meaningful_text (Some example_soup) =
      [(''p'', ''___________''), (''p'', ''Hello, world of text'')]
   \<and> \<not> list_ex is_alpha ''___________''
   \<and> \<not> match_digits_nonword ''___________''"
  by code_simp

text \<open>
  Claim C9. The result of the set-based Matcher does not depend on the
  \<open>similarity_threshold\<close> argument: for the same inputs and the same set iteration order,
  any two thresholds give the same result (or the same error). Only the constants written
  in the loops (30, 50, 0.75, 0.9, 5 and 50) decide the classification.
\<close>

theorem threshold_independence:
  "find_significant_changes set_iter old_items new_items t1 =
   find_significant_changes set_iter old_items new_items t2"
  by (simp add: find_significant_changes_def)

text \<open>
  Claim C10. The length pre-filter never divides by zero. Every key of the two lookup
  maps has at least 30 characters; so for every pair of keys the loops compare, the
  larger length is positive and the quotient \<open>min(len) / max(len)\<close> is defined; and the
  Matcher returns a report, not an error.
\<close>

theorem no_division_by_zero:
  assumes "set_semantics set_iter"
  shows "(\<forall>k \<in> set (map fst (normalized_map_loop old_items []))
               \<union> set (map fst (normalized_map_loop new_items [])). 30 \<le> length k)
     \<and> (\<forall>new_norm \<in> set (set_iter (map fst (normalized_map_loop new_items []))).
         \<forall>old_norm \<in> set (set_iter (map fst (normalized_map_loop old_items []))).
           0 < max (length new_norm) (length old_norm)
           \<and> length_ratio new_norm old_norm
               = Inr (of_nat (min (length new_norm) (length old_norm))
                      / of_nat (max (length new_norm) (length old_norm))))
     \<and> (\<exists>r. find_significant_changes set_iter old_items new_items t = Inr r)"
proof (intro conjI)
  show keys: "\<forall>k \<in> set (map fst (normalized_map_loop old_items []))
               \<union> set (map fst (normalized_map_loop new_items [])). 30 \<le> length k"
    using normalized_map_key_length by blast
  show "\<forall>new_norm \<in> set (set_iter (map fst (normalized_map_loop new_items []))).
         \<forall>old_norm \<in> set (set_iter (map fst (normalized_map_loop old_items []))).
           0 < max (length new_norm) (length old_norm)
           \<and> length_ratio new_norm old_norm
               = Inr (of_nat (min (length new_norm) (length old_norm))
                      / of_nat (max (length new_norm) (length old_norm)))"
  proof (intro ballI)
    fix new_norm old_norm :: string
    assume "new_norm \<in> set (set_iter (map fst (normalized_map_loop new_items [])))"
    with assms have "new_norm \<in> set (map fst (normalized_map_loop new_items []))"
      by (simp add: set_semantics_def)
    from normalized_map_key_length[OF this] have ne: "new_norm \<noteq> []" and pos: "0 < length new_norm"
      by auto
    from pos have "0 < max (length new_norm) (length old_norm)"
      by linarith
    moreover from ne have "length_ratio new_norm old_norm
               = Inr (of_nat (min (length new_norm) (length old_norm))
                      / of_nat (max (length new_norm) (length old_norm)))"
      by (rule length_ratio_Inr)
    ultimately show "0 < max (length new_norm) (length old_norm)
           \<and> length_ratio new_norm old_norm
               = Inr (of_nat (min (length new_norm) (length old_norm))
                      / of_nat (max (length new_norm) (length old_norm)))"
      by (rule conjI)
  qed
  show "\<exists>r. find_significant_changes set_iter old_items new_items t = Inr r"
    unfolding find_significant_changes_eq[OF assms] by (rule exI) (rule refl)
qed

theorem no_division_by_zero_witness:
  "set_semantics remdups
   \<and> 30 \<le> length ''thequickbrownfoxjumpsoverthelazydogneartheriverbanktoday''
   \<and> 30 \<le> length ''thequickbrownfoxjumpsoverthelazydogneartheriverbankyesterdayafternoon''
   \<and> 0 < max (length ''thequickbrownfoxjumpsoverthelazydogneartheriverbankyesterdayafternoon'')
             (length ''thequickbrownfoxjumpsoverthelazydogneartheriverbanktoday'')
   \<and> length_ratio ''thequickbrownfoxjumpsoverthelazydogneartheriverbankyesterdayafternoon''
         ''thequickbrownfoxjumpsoverthelazydogneartheriverbanktoday''
       = Inr (of_nat (min (length ''thequickbrownfoxjumpsoverthelazydogneartheriverbankyesterdayafternoon'')
                          (length ''thequickbrownfoxjumpsoverthelazydogneartheriverbanktoday''))
              / of_nat (max (length ''thequickbrownfoxjumpsoverthelazydogneartheriverbankyesterdayafternoon'')
                            (length ''thequickbrownfoxjumpsoverthelazydogneartheriverbanktoday'')))
   \<and> (\<exists>r. find_significant_changes remdups scenario3_old scenario3_new (7 / 10) = Inr r)"
proof -
  note inst = no_division_by_zero[OF set_semantics_remdups, of scenario3_old scenario3_new "7 / 10",
      unfolded scenario3_old_keys scenario3_new_keys]
  from inst have "30 \<le> length ''thequickbrownfoxjumpsoverthelazydogneartheriverbanktoday''"
    and "30 \<le> length ''thequickbrownfoxjumpsoverthelazydogneartheriverbankyesterdayafternoon''"
    by simp_all
  moreover from inst have
    "0 < max (length ''thequickbrownfoxjumpsoverthelazydogneartheriverbankyesterdayafternoon'')
             (length ''thequickbrownfoxjumpsoverthelazydogneartheriverbanktoday'')
     \<and> length_ratio ''thequickbrownfoxjumpsoverthelazydogneartheriverbankyesterdayafternoon''
         ''thequickbrownfoxjumpsoverthelazydogneartheriverbanktoday''
       = Inr (of_nat (min (length ''thequickbrownfoxjumpsoverthelazydogneartheriverbankyesterdayafternoon'')
                          (length ''thequickbrownfoxjumpsoverthelazydogneartheriverbanktoday''))
              / of_nat (max (length ''thequickbrownfoxjumpsoverthelazydogneartheriverbankyesterdayafternoon'')
                            (length ''thequickbrownfoxjumpsoverthelazydogneartheriverbanktoday'')))"
    by simp
  moreover from inst have
    "\<exists>r. find_significant_changes remdups scenario3_old scenario3_new (7 / 10) = Inr r"
    by simp
  ultimately show ?thesis
    using set_semantics_remdups by (intro conjI) simp_all
qed
end
